theory Spec2Isabelle
  imports Main "HOL-Library.Multiset"
begin

unbundle bit_operations_syntax

section \<open>Hand identifiers (raygen9.cpp, lines 83-162)\<close>

text \<open>
  An identifier is an \<open>int64_t\<close> holding nine 7-bit slots: five board slots in bits
  0..34 and four pocket slots in bits 35..62. It is modelled as an \<open>int\<close>:
  \<open>drop_bit\<close> on \<open>int\<close> is the arithmetic right shift and \<open>AND 0x7F\<close> reads the low
  seven bits of the two's complement representation, as the C operators do on every
  64-bit value. \<open>pack64\<close> adds nine shifted values; with every value below 128 the
  sum stays below \<open>2 ^ 63\<close>, so the 64-bit addition never wraps on the values the
  transitions produce (at most 53).
\<close>

definition ANY_CARD :: int where
  "ANY_CARD = 1"

definition SKIP_BOARD :: int where
  "SKIP_BOARD = 53"

definition pocket_perms :: "(nat \<times> nat) list" where
  "pocket_perms = [(0, 1), (0, 2), (0, 3), (1, 2), (1, 3), (2, 3)]"

definition board_perms :: "(nat \<times> nat \<times> nat) list" where
  "board_perms =
     [(0, 1, 2),
      (0, 1, 3), (0, 2, 3), (1, 2, 3),
      (0, 1, 4), (0, 2, 4), (0, 3, 4), (1, 2, 4), (1, 3, 4), (2, 3, 4)]"

text \<open>
  The local variables \<open>int pocket[4], board[5], n_pocket, n_board\<close> that every
  function of the source declares and passes on by reference.
\<close>

record hand =
  pocket :: "int list"
  board :: "int list"
  n_pocket :: nat
  n_board :: nat

definition slot :: "int \<Rightarrow> nat \<Rightarrow> int" where
  "slot ident i = drop_bit (7 * i) ident AND 0x7F"

definition count_cards :: "int \<Rightarrow> nat" where
  "count_cards ident = (\<Sum>i\<leftarrow>[0..<9]. if slot ident i \<noteq> 0 then 1 else 0)"

text \<open>
  \<open>skip_board\<close>: the board without its skip sentinels, moved to the front of a
  zeroed array of five, and their number.
\<close>

definition skip_board :: "hand \<Rightarrow> hand" where
  "skip_board h =
     (let kept = filter (\<lambda>c. c \<noteq> SKIP_BOARD) (take 5 (board h))
      in h\<lparr>board := kept @ replicate (5 - length kept) 0, n_board := length kept\<rparr>)"

text \<open>
  \<open>add_card\<close> writes \<open>board[n_board++]\<close> while the board has room and
  \<open>pocket[n_pocket++]\<close> afterwards. With both arrays full the source writes one past
  the end of \<open>pocket\<close>, which C leaves undefined: the model returns \<open>None\<close> there.
\<close>

definition add_card :: "int \<Rightarrow> hand \<Rightarrow> hand option" where
  "add_card new_card h =
     (if n_board h < 5
      then Some (h\<lparr>board := (board h)[n_board h := new_card], n_board := n_board h + 1\<rparr>)
      else if n_pocket h < 4
      then Some (h\<lparr>pocket := (pocket h)[n_pocket h := new_card], n_pocket := n_pocket h + 1\<rparr>)
      else None)"

text \<open>The body of the loop of \<open>unpack64\<close>, for the slot index \<open>i\<close>.\<close>

definition unpack64_step :: "int \<Rightarrow> hand \<Rightarrow> nat \<Rightarrow> hand" where
  "unpack64_step ident h i =
     (let card = slot ident i
      in if card \<noteq> 0
         then (if i < 5
               then h\<lparr>board := (board h)[n_board h := card], n_board := n_board h + 1\<rparr>
               else h\<lparr>pocket := (pocket h)[n_pocket h := card], n_pocket := n_pocket h + 1\<rparr>)
         else h)"

definition unpack64 :: "int \<Rightarrow> hand" where
  "unpack64 ident =
     foldl (unpack64_step ident)
       \<lparr>pocket = replicate 4 0, board = replicate 5 0, n_pocket = 0, n_board = 0\<rparr>
       [0..<9]"

text \<open>
  \<open>pack64\<close> sorts both arrays, reverses them and adds the nine shifted values. The
  arguments are the arrays \<open>pocket[4]\<close> and \<open>board[5]\<close>.
\<close>

definition pack64 :: "int list \<Rightarrow> int list \<Rightarrow> int" where
  "pack64 p b =
     (let p' = rev (sort p); b' = rev (sort b)
      in b' ! 0 + push_bit 7 (b' ! 1) + push_bit 14 (b' ! 2) + push_bit 21 (b' ! 3) +
         push_bit 28 (b' ! 4) + push_bit 35 (p' ! 0) + push_bit 42 (p' ! 1) +
         push_bit 49 (p' ! 2) + push_bit 56 (p' ! 3))"

definition pack_hand :: "hand \<Rightarrow> int" where
  "pack_hand h = pack64 (pocket h) (board h)"

section \<open>The flush-suit automaton (lines 181-204)\<close>

definition add_card_to_id_flush_suits :: "int \<Rightarrow> int \<Rightarrow> int option" where
  "add_card_to_id_flush_suits ident new_card =
     (let new_card = (if new_card = 0 then SKIP_BOARD else ((new_card - 1) AND 3) + 1)
      in map_option pack_hand (add_card new_card (unpack64 ident)))"

text \<open>
  Both histogram loops of \<open>eval_flush_suits\<close>. The arrays \<open>nsp\<close> and \<open>nsb\<close> have five
  entries and are indexed by the stored value: a value outside 0..4 would index past
  the array, which the model reports as \<open>None\<close>. \<open>MIN\<close> is the usual macro.
\<close>

fun count_pocket_suits :: "int list \<Rightarrow> int list \<Rightarrow> int list option" where
  "count_pocket_suits [] nsp = Some nsp"
| "count_pocket_suits (c # cs) nsp =
     (if 0 \<le> c \<and> c < 5
      then count_pocket_suits cs (nsp[nat c := min (nsp ! nat c + 1) 2])
      else None)"

fun count_board_suits :: "int list \<Rightarrow> int list \<Rightarrow> int list option" where
  "count_board_suits [] nsb = Some nsb"
| "count_board_suits (c # cs) nsb =
     (if c \<noteq> SKIP_BOARD
      then (if 0 \<le> c \<and> c < 5
            then count_board_suits cs (nsb[nat c := min (nsb ! nat c + 1) 3])
            else None)
      else count_board_suits cs nsb)"

text \<open>The final loop over the suits, in the order given by the list.\<close>

fun scan_suits :: "int list \<Rightarrow> int list \<Rightarrow> int list \<Rightarrow> int" where
  "scan_suits nsp nsb [] = - 1"
| "scan_suits nsp nsb (suit # suits) =
     (if nsp ! nat suit + nsb ! nat suit \<ge> 5 then suit else scan_suits nsp nsb suits)"

definition eval_flush_suits :: "int \<Rightarrow> int option" where
  "eval_flush_suits ident =
     (let h = unpack64 ident
      in case count_pocket_suits (take (n_pocket h) (pocket h)) (replicate 5 0) of
           None \<Rightarrow> None
         | Some nsp \<Rightarrow>
             (case count_board_suits (take (n_board h) (board h)) (replicate 5 0) of
                None \<Rightarrow> None
              | Some nsb \<Rightarrow> Some (scan_suits nsp nsb [1, 2, 3, 4])))"

section \<open>The flush-rank automaton (lines 206-329)\<close>

text \<open>
  In \<open>2 + ((new_card - 1) >> 2) & 0xF\<close> the addition binds tighter than \<open>&\<close>, so the
  mask applies to the sum.
\<close>

definition add_card_to_id_flush_ranks :: "int \<Rightarrow> int \<Rightarrow> int \<Rightarrow> int option" where
  "add_card_to_id_flush_ranks ident new_card flush_suit =
     (let new_card =
            (if new_card = 0 then SKIP_BOARD
             else if ((new_card - 1) AND 3) + 1 = flush_suit
             then (2 + drop_bit 2 (new_card - 1)) AND 0xF
             else ANY_CARD);
          h = unpack64 ident
      in if list_ex (\<lambda>c. c \<noteq> ANY_CARD \<and> c \<noteq> SKIP_BOARD \<and> c = new_card)
              (take (n_pocket h) (pocket h))
         then Some 0
         else if list_ex (\<lambda>c. c \<noteq> ANY_CARD \<and> c \<noteq> SKIP_BOARD \<and> c = new_card)
              (take (n_board h) (board h))
         then Some 0
         else
           (case add_card new_card h of
              None \<Rightarrow> None
            | Some h' \<Rightarrow>
                (let nsp = length (filter (\<lambda>c. c \<noteq> ANY_CARD \<and> c \<noteq> 0)
                                    (take (n_pocket h') (pocket h')));
                     nsb = length (filter (\<lambda>c. c \<noteq> ANY_CARD \<and> c \<noteq> SKIP_BOARD \<and> c \<noteq> 0)
                                    (take (n_board h') (board h')))
                 in if n_board h' = 4 \<and> nsb \<le> 1 then Some 0
                    else if n_board h' = 5 \<and> nsb \<le> 2 then Some 0
                    else if n_board h' = 5 \<and> n_pocket h' = 3 \<and> nsp = 0 then Some 0
                    else if n_board h' = 5 \<and> n_pocket h' = 4 \<and> nsp \<le> 1 then Some 0
                    else Some (pack_hand h'))))"

definition add_card_to_id_flush_ranks_1 :: "int \<Rightarrow> int \<Rightarrow> int option" where
  "add_card_to_id_flush_ranks_1 ident new_card = add_card_to_id_flush_ranks ident new_card 1"

definition add_card_to_id_flush_ranks_2 :: "int \<Rightarrow> int \<Rightarrow> int option" where
  "add_card_to_id_flush_ranks_2 ident new_card = add_card_to_id_flush_ranks ident new_card 2"

definition add_card_to_id_flush_ranks_3 :: "int \<Rightarrow> int \<Rightarrow> int option" where
  "add_card_to_id_flush_ranks_3 ident new_card = add_card_to_id_flush_ranks ident new_card 3"

definition add_card_to_id_flush_ranks_4 :: "int \<Rightarrow> int \<Rightarrow> int option" where
  "add_card_to_id_flush_ranks_4 ident new_card = add_card_to_id_flush_ranks ident new_card 4"

text \<open>
  The tables \<open>flushes\<close>, \<open>unique5\<close>, \<open>values\<close> and the functions \<open>cactus_findit\<close> and
  \<open>cactus_to_ray\<close> come from \<open>arrays.h\<close> and \<open>rayutils.h\<close>, which are not among the
  sources: the evaluators take them as a parameter.
\<close>

record tables =
  flushes :: "int \<Rightarrow> int"
  unique5 :: "int \<Rightarrow> int"
  values_table :: "int \<Rightarrow> int"
  cactus_findit :: "int \<Rightarrow> int"
  cactus_to_ray :: "int \<Rightarrow> int"

text \<open>What an evaluator prints on \<open>std::cout\<close> before it returns.\<close>

datatype diagnostic =
  Zero_encountered int  \<comment> \<open>\<open>eval_flush_ranks(): <id>: zero encountered.\<close>\<close>
| Invalid_number_of_cards  \<comment> \<open>\<open>eval_no_flush() encountered invalid # of cards, shouldn't happen...\<close>\<close>

definition n_board_perms_for :: "nat \<Rightarrow> int" where
  "n_board_perms_for n = (if n = 9 then 10 else if n = 8 then 4 else if n = 7 then 1 else - 1)"

text \<open>
  The body of the double loop of \<open>eval_flush_ranks\<close> for one pocket pair and one board
  triple; the function declares its own \<open>pocket_perms[2][6]\<close>, with the same pairs.
\<close>

definition flush_ranks_step ::
  "tables \<Rightarrow> int list \<Rightarrow> int list \<Rightarrow> (nat \<times> nat) \<times> (nat \<times> nat \<times> nat) \<Rightarrow> int \<Rightarrow> int" where
  "flush_ranks_step T p b perm best =
     (case perm of ((p1, p2), (b1, b2, b3)) \<Rightarrow>
        (let rank1 = p ! p1 - 2; rank2 = p ! p2 - 2;
             rank3 = b ! b1 - 2; rank4 = b ! b2 - 2; rank5 = b ! b3 - 2
         in if rank1 < 0 \<or> rank2 < 0 \<or> rank3 < 0 \<or> rank4 < 0 \<or> rank5 < 0 \<or>
               rank1 > 12 \<or> rank2 > 12 \<or> rank3 > 12 \<or> rank4 > 12 \<or> rank5 > 12
            then best
            else (let q = flushes T (push_bit (nat rank1) 1 OR push_bit (nat rank2) 1 OR
                             push_bit (nat rank3) 1 OR push_bit (nat rank4) 1 OR
                             push_bit (nat rank5) 1)
                  in if q < best then q else best)))"

definition eval_flush_ranks :: "tables \<Rightarrow> int \<Rightarrow> diagnostic list \<times> int" where
  "eval_flush_ranks T ident =
     (let h = skip_board (unpack64 ident); p = pocket h; b = board h
      in if p ! 0 = 0 \<or> p ! 1 = 0 \<or> b ! 0 = 0 \<or> b ! 1 = 0 \<or> b ! 2 = 0
         then ([Zero_encountered ident], - 1)
         else if p ! 0 = ANY_CARD \<or> p ! 1 = ANY_CARD \<or> b ! 0 = ANY_CARD \<or>
                 b ! 1 = ANY_CARD \<or> b ! 2 = ANY_CARD
         then ([], - 1)
         else (let n = n_pocket h + n_board h;
                   n_board_perms = n_board_perms_for n;
                   best = fold (flush_ranks_step T p b)
                            (List.product pocket_perms (take (nat n_board_perms) board_perms))
                            8191
               in ([], cactus_to_ray T best)))"

section \<open>The no-flush automaton (lines 331-420)\<close>

text \<open>
  \<open>n_rank\<close> has 14 entries and is indexed by the stored rank; an index outside the
  array is \<open>None\<close>.
\<close>

definition bump_rank :: "int list \<Rightarrow> int \<Rightarrow> int list option" where
  "bump_rank n_rank c =
     (if 0 \<le> c \<and> c < 14 then Some (n_rank[nat c := n_rank ! nat c + 1]) else None)"

fun count_pocket_ranks :: "int list \<Rightarrow> int list \<Rightarrow> int list option" where
  "count_pocket_ranks [] n_rank = Some n_rank"
| "count_pocket_ranks (c # cs) n_rank =
     (case bump_rank n_rank c of None \<Rightarrow> None | Some n_rank' \<Rightarrow> count_pocket_ranks cs n_rank')"

fun count_board_ranks :: "int list \<Rightarrow> int list \<Rightarrow> int list option" where
  "count_board_ranks [] n_rank = Some n_rank"
| "count_board_ranks (c # cs) n_rank =
     (if c \<noteq> SKIP_BOARD
      then (case bump_rank n_rank c of None \<Rightarrow> None | Some n_rank' \<Rightarrow> count_board_ranks cs n_rank')
      else count_board_ranks cs n_rank)"

definition add_card_to_id_no_flush :: "int \<Rightarrow> int \<Rightarrow> int option" where
  "add_card_to_id_no_flush ident new_card =
     (let new_card =
            (if new_card = 0 then SKIP_BOARD else (1 + drop_bit 2 (new_card - 1)) AND 0xF);
          h = unpack64 ident
      in case count_pocket_ranks (take (n_pocket h) (pocket h)) (replicate 14 0) of
           None \<Rightarrow> None
         | Some n_rank1 \<Rightarrow>
             (case count_board_ranks (take (n_board h) (board h)) n_rank1 of
                None \<Rightarrow> None
              | Some n_rank2 \<Rightarrow>
                  (case add_card new_card h of
                     None \<Rightarrow> None
                   | Some h' \<Rightarrow>
                       (case (if new_card \<noteq> SKIP_BOARD then bump_rank n_rank2 new_card
                              else Some n_rank2) of
                          None \<Rightarrow> None
                        | Some n_rank \<Rightarrow>
                            (if list_ex (\<lambda>i. n_rank ! i > 4) [1..<14] then Some 0
                             else Some (pack_hand h'))))))"

definition primes :: "int list" where
  "primes = [2, 3, 5, 7, 11, 13, 17, 19, 23, 29, 31, 37, 41]"

text \<open>
  \<open>card_to_cactus\<close> reads the buffered table \<open>cards[14][5]\<close>, whose row 0 and column 0
  are zero; an index outside the table is \<open>None\<close>.
\<close>

definition card_to_cactus :: "int \<Rightarrow> int \<Rightarrow> int option" where
  "card_to_cactus rank suit =
     (if rank < 0 \<or> 13 < rank \<or> suit < 0 \<or> 4 < suit then None
      else if rank = 0 \<or> suit = 0 then Some 0
      else Some (primes ! nat (rank - 1) OR push_bit 8 (rank - 1) OR
                 push_bit (nat (suit + 11)) 1 OR push_bit (nat (16 + (rank - 1))) 1))"

definition eval_cactus_no_flush :: "tables \<Rightarrow> int \<Rightarrow> int \<Rightarrow> int \<Rightarrow> int \<Rightarrow> int \<Rightarrow> int" where
  "eval_cactus_no_flush T c1 c2 c3 c4 c5 =
     (let s = unique5 T (drop_bit 16 (c1 OR c2 OR c3 OR c4 OR c5))
      in if s \<noteq> 0 then s
         else values_table T (cactus_findit T
                ((c1 AND 0xFF) * (c2 AND 0xFF) * (c3 AND 0xFF) * (c4 AND 0xFF) * (c5 AND 0xFF))))"

text \<open>
  The conversion loops of \<open>eval_no_flush\<close>: the cards \<open>cs\<close> are replaced by their Cactus
  Kev encoding, the suit counter \<open>suit\<close> running on from one card to the next.
\<close>

fun to_cactus :: "int list \<Rightarrow> nat \<Rightarrow> int list option" where
  "to_cactus [] suit = Some []"
| "to_cactus (c # cs) suit =
     (case card_to_cactus c (int (suit mod 4) + 1) of
        None \<Rightarrow> None
      | Some k \<Rightarrow> (case to_cactus cs (suit + 1) of None \<Rightarrow> None | Some ks \<Rightarrow> Some (k # ks)))"

definition no_flush_step ::
  "tables \<Rightarrow> int list \<Rightarrow> int list \<Rightarrow> (nat \<times> nat) \<times> (nat \<times> nat \<times> nat) \<Rightarrow> int \<Rightarrow> int" where
  "no_flush_step T p b perm best =
     (case perm of ((p1, p2), (b1, b2, b3)) \<Rightarrow>
        (let q = eval_cactus_no_flush T (p ! p1) (p ! p2) (b ! b1) (b ! b2) (b ! b3)
         in if q < best then q else best))"

definition eval_no_flush :: "tables \<Rightarrow> int \<Rightarrow> (diagnostic list \<times> int) option" where
  "eval_no_flush T ident =
     (let h = skip_board (unpack64 ident);
          n = n_pocket h + n_board h;
          n_board_perms = n_board_perms_for n
      in if n_pocket h < 4 \<or> n_board h < 3 then Some ([Invalid_number_of_cards], 0)
         else
           (case to_cactus (take (n_pocket h) (pocket h)) 0 of
              None \<Rightarrow> None
            | Some ps \<Rightarrow>
                (case to_cactus (take (n_board h) (board h)) (n_pocket h) of
                   None \<Rightarrow> None
                 | Some bs \<Rightarrow>
                     (let p = ps @ drop (n_pocket h) (pocket h);
                          b = bs @ drop (n_board h) (board h);
                          best = fold (no_flush_step T p b)
                                   (List.product pocket_perms
                                      (take (nat n_board_perms) board_perms))
                                   8191
                      in Some ([], cactus_to_ray T best)))))"

section \<open>Enumeration of the identifiers (lines 430-477)\<close>

text \<open>
  A transition is a function pointer \<open>int64_t (*)(int64_t, int)\<close>; in the model it
  returns \<open>None\<close> where the source would write past an array, and the loops that call it
  pass the \<open>None\<close> on. The three nested loops of \<open>generate_ids\<close> follow: over
  \<open>new_card\<close>, over the queue \<open>id_queue_1\<close>, and over \<open>n_cards\<close>.
\<close>

type_synonym transition = "int \<Rightarrow> int \<Rightarrow> int option"

fun expand_id :: "transition \<Rightarrow> int \<Rightarrow> int list \<Rightarrow> int list \<Rightarrow> int list option" where
  "expand_id f ident [] id_queue_2 = Some id_queue_2"
| "expand_id f ident (new_card # cards) id_queue_2 =
     (case f ident new_card of
        None \<Rightarrow> None
      | Some new_id \<Rightarrow>
          expand_id f ident cards (if new_id \<noteq> 0 then id_queue_2 @ [new_id] else id_queue_2))"

fun expand_queue :: "transition \<Rightarrow> int list \<Rightarrow> int list \<Rightarrow> int list \<Rightarrow> int list option" where
  "expand_queue f cards [] id_queue_2 = Some id_queue_2"
| "expand_queue f cards (ident # id_queue_1) id_queue_2 =
     (case expand_id f ident cards id_queue_2 of
        None \<Rightarrow> None
      | Some id_queue_2' \<Rightarrow> expand_queue f cards id_queue_1 id_queue_2')"

definition min_card_generate :: "nat \<Rightarrow> int" where
  "min_card_generate n_cards = (if n_cards \<le> 2 then 0 else 1)"

text \<open>
  The outer loop, on the pair \<open>(id_list, id_queue_1)\<close>: \<open>std::sort\<close> followed by
  \<open>std::unique\<close> and \<open>erase\<close> is \<open>remdups_adj\<close> of the sorted queue.
\<close>

fun generate_loop ::
  "transition \<Rightarrow> nat list \<Rightarrow> int list \<times> int list \<Rightarrow> (int list \<times> int list) option" where
  "generate_loop f [] s = Some s"
| "generate_loop f (n_cards # ns) (id_list, id_queue_1) =
     (case expand_queue f [min_card_generate n_cards..52] id_queue_1 [] of
        None \<Rightarrow> None
      | Some id_queue_2 \<Rightarrow>
          (let id_queue_2 = remdups_adj (sort id_queue_2)
           in generate_loop f ns (id_list @ id_queue_2, id_queue_2)))"

definition generate_ids :: "transition \<Rightarrow> int list option" where
  "generate_ids f = map_option (\<lambda>s. sort (fst s)) (generate_loop f [1..<9] ([0], [0]))"

section \<open>Assembly of the table (lines 509-624)\<close>

text \<open>
  \<open>hand_ranks\<close> is a vector of \<open>int\<close>, modelled as a store from indices to values;
  indices and stored offsets are the mathematical integers (the source uses 32-bit
  \<open>int\<close>). The arguments of \<open>process_ids\<close> are collected in a record; \<open>hand_ranks\<close> is
  passed and returned.
\<close>

type_synonym store = "int \<Rightarrow> int"

record process_args =
  ids :: "int list"
  offset :: int
  offset_value :: int
  add_card_to_id :: transition
  eval_id :: "int \<Rightarrow> int option"
  n_dummy :: int
  dummy_card :: int
  map_arg :: "int \<rightharpoonup> int"

definition block_size :: "process_args \<Rightarrow> int" where
  "block_size A = 53 + n_dummy A"

text \<open>
  \<open>hash_table\<close> receives \<open>(ids[i], i)\<close> for increasing \<open>i\<close> with \<open>insert\<close>, which keeps
  the first entry of a key; \<open>hash_table[new_id]\<close> yields 0 for a key that is not there.
\<close>

definition hash_table :: "int list \<Rightarrow> int \<Rightarrow> int" where
  "hash_table ids_list new_id =
     (case map_of (zip ids_list [0..<length ids_list]) new_id of
        Some i \<Rightarrow> int i
      | None \<Rightarrow> 0)"

text \<open>The three branches of the loop over \<open>new_card\<close> and the value each one stores.\<close>

datatype branch = Terminal | Successor | Pruned

definition branch_taken :: "int \<Rightarrow> nat \<Rightarrow> branch" where
  "branch_taken new_id num_cards =
     (if new_id \<noteq> 0 \<and> num_cards + 1 = 9 then Terminal
      else if new_id \<noteq> 0 then Successor
      else Pruned)"

definition cell_value :: "process_args \<Rightarrow> int \<Rightarrow> nat \<Rightarrow> int option" where
  "cell_value A new_id num_cards =
     (case branch_taken new_id num_cards of
        Terminal \<Rightarrow>
          (case eval_id A new_id of
             None \<Rightarrow> None
           | Some v \<Rightarrow> Some (case map_arg A v of Some w \<Rightarrow> w | None \<Rightarrow> v))
      | Successor \<Rightarrow>
          Some (offset A + block_size A + hash_table (ids A) new_id * block_size A)
      | Pruned \<Rightarrow> Some (offset A))"

text \<open>One round of the loop over \<open>new_card\<close>, on \<open>(hand_ranks, dummy_value)\<close>.\<close>

definition process_card ::
  "process_args \<Rightarrow> int \<Rightarrow> int \<Rightarrow> nat \<Rightarrow> store \<times> int \<Rightarrow> int \<Rightarrow> (store \<times> int) option" where
  "process_card A ident id_index num_cards s new_card =
     (case add_card_to_id A ident new_card of
        None \<Rightarrow> None
      | Some new_id \<Rightarrow>
          (case cell_value A new_id num_cards of
             None \<Rightarrow> None
           | Some v \<Rightarrow>
               (let hand_ranks = (fst s)(id_index + new_card := v)
                in Some (hand_ranks,
                         if new_card = dummy_card A then hand_ranks (id_index + new_card)
                         else snd s))))"

fun fold_option :: "('s \<Rightarrow> 'a \<Rightarrow> 's option) \<Rightarrow> 'a list \<Rightarrow> 's \<Rightarrow> 's option" where
  "fold_option f [] s = Some s"
| "fold_option f (x # xs) s = (case f s x of None \<Rightarrow> None | Some s' \<Rightarrow> fold_option f xs s')"

definition min_card_process :: "nat \<Rightarrow> int" where
  "min_card_process num_cards = (if num_cards \<le> 1 then 0 else 1)"

text \<open>The body of the loop over the identifiers, for the index \<open>i\<close>.\<close>

definition process_id :: "process_args \<Rightarrow> store \<Rightarrow> nat \<Rightarrow> store option" where
  "process_id A hand_ranks i =
     (let ident = ids A ! i;
          id_index = offset A + block_size A + int i * block_size A;
          num_cards = count_cards ident;
          hand_ranks = hand_ranks(id_index := offset A);
          min_card = min_card_process num_cards
      in case fold_option (process_card A ident id_index num_cards) [min_card..52]
                (hand_ranks, - 1) of
           None \<Rightarrow> None
         | Some (hand_ranks, dummy_value) \<Rightarrow>
             Some (if dummy_value \<noteq> - 1
                   then fold (\<lambda>new_card hr. hr(id_index + new_card := dummy_value))
                          [53..block_size A - 1] hand_ranks
                   else hand_ranks))"

definition process_ids :: "process_args \<Rightarrow> store \<Rightarrow> store option" where
  "process_ids A hand_ranks =
     (let hand_ranks = hand_ranks(offset A := offset_value A);
          hand_ranks = fold (\<lambda>i hr. hr(offset A + i := offset A)) [1..52] hand_ranks;
          hand_ranks = fold (\<lambda>i hr. hr(offset A + i := offset A)) [53..block_size A - 1] hand_ranks
      in fold_option (process_id A) [0..<length (ids A)] hand_ranks)"

text \<open>
  \<open>generate_handranks\<close> returns \<open>max_rank\<close> and leaves the table in \<open>hand_ranks\<close>, a
  vector of \<open>max_rank\<close> zeros before the first store.
\<close>

definition generate_handranks :: "tables \<Rightarrow> (store \<times> int) option" where
  "generate_handranks T =
     (case generate_ids add_card_to_id_flush_suits of
        None \<Rightarrow> None
      | Some id_fs \<Rightarrow>
     (case generate_ids add_card_to_id_flush_ranks_4 of
        None \<Rightarrow> None
      | Some id_fr4 \<Rightarrow>
     (case generate_ids add_card_to_id_no_flush of
        None \<Rightarrow> None
      | Some id_nf \<Rightarrow>
         (let n_fs = int (length id_fs); n_fr4 = int (length id_fr4); n_nf = int (length id_nf);
              offset_fs = 53;
              offset_fr4 = offset_fs + 53 + n_fs * 53;
              offset_nf = offset_fr4 + (53 + 3) + n_fr4 * (53 + 3);
              max_rank = offset_nf + 53 + n_nf * 53;
              hand_ranks = (\<lambda>i. 0);
              hand_ranks = hand_ranks(0 := offset_nf);
              hand_ranks = hand_ranks(1 := offset_fr4)
          in case process_ids
                    \<lparr>ids = id_fs, offset = offset_fs, offset_value = offset_nf,
                     add_card_to_id = add_card_to_id_flush_suits,
                     eval_id = eval_flush_suits, n_dummy = 0, dummy_card = 0,
                     map_arg = [- 1 \<mapsto> 0]\<rparr> hand_ranks of
               None \<Rightarrow> None
             | Some hand_ranks \<Rightarrow>
            (case process_ids
                    \<lparr>ids = id_fr4, offset = offset_fr4, offset_value = 0,
                     add_card_to_id = add_card_to_id_flush_ranks_4,
                     eval_id = (\<lambda>ident. Some (snd (eval_flush_ranks T ident))),
                     n_dummy = 3, dummy_card = 1,
                     map_arg = [- 1 \<mapsto> offset_fr4]\<rparr> hand_ranks of
               None \<Rightarrow> None
             | Some hand_ranks \<Rightarrow>
            (case process_ids
                    \<lparr>ids = id_nf, offset = offset_nf, offset_value = 0,
                     add_card_to_id = add_card_to_id_no_flush,
                     eval_id = (\<lambda>ident. map_option snd (eval_no_flush T ident)),
                     n_dummy = 0, dummy_card = 0,
                     map_arg = [- 1 \<mapsto> offset_nf]\<rparr> hand_ranks of
               None \<Rightarrow> None
             | Some hand_ranks \<Rightarrow> Some (hand_ranks, max_rank)))))))"

section \<open>Evaluating a hand with the table (lines 1-67 and 650-700)\<close>

text \<open>
  The chained lookups \<open>HR[HR[HR[start + c0] + c1] + ...]\<close> of the header comment and of
  \<open>test_all_handranks\<close>, for the cards \<open>c[0..8]\<close>: board first, then pocket.
\<close>

fun chain :: "store \<Rightarrow> int \<Rightarrow> int list \<Rightarrow> int" where
  "chain HR start [] = start"
| "chain HR start (c # cs) = chain HR (HR (start + c)) cs"

definition flush_suit_of :: "store \<Rightarrow> int list \<Rightarrow> int" where
  "flush_suit_of HR c = chain HR 106 c"

definition score_no_flush :: "store \<Rightarrow> int list \<Rightarrow> int" where
  "score_no_flush HR c = chain HR (HR 0 + 53) c"

definition score_flush :: "store \<Rightarrow> int \<Rightarrow> int list \<Rightarrow> int" where
  "score_flush HR fs c = chain (\<lambda>i. HR (4 - fs + i)) (HR 1 + 56) c"

definition score_new :: "store \<Rightarrow> int list \<Rightarrow> int" where
  "score_new HR c =
     (let fs = flush_suit_of HR c; score = score_no_flush HR c
      in if fs \<noteq> 0 then max score (score_flush HR fs c) else score)"

section \<open>Slots of an identifier\<close>

lemma slot_div_mod: "slot ident i = ident div 2 ^ (7 * i) mod 128"
proof -
  have "drop_bit (7 * i) ident AND 127 = take_bit 7 (drop_bit (7 * i) ident)"
    by (simp add: take_bit_eq_mask mask_eq_exp_minus_1)
  then show ?thesis
    by (simp add: slot_def take_bit_eq_mod drop_bit_eq_div)
qed

lemma slot_range: "0 \<le> slot ident i \<and> slot ident i < 128"
  by (simp add: slot_div_mod)

lemma count_cards_filter:
  "count_cards ident = length (filter (\<lambda>c. c \<noteq> 0) (map (slot ident) [0..<9]))"
proof -
  have "(\<Sum>x\<leftarrow>xs. if f x \<noteq> (0::int) then 1 else 0) = length (filter (\<lambda>c. c \<noteq> 0) (map f xs))"
    for f :: "nat \<Rightarrow> int" and xs
    by (induction xs) simp_all
  then show ?thesis
    by (simp add: count_cards_def)
qed

text \<open>
  The occupied board and pocket slots of an identifier, in slot order, and an array
  filled from the front.
\<close>

definition nonzero :: "int list \<Rightarrow> int list" where
  "nonzero xs = filter (\<lambda>c. c \<noteq> 0) xs"

definition bslots :: "int \<Rightarrow> int list" where
  "bslots ident = nonzero (map (slot ident) [0..<5])"

definition pslots :: "int \<Rightarrow> int list" where
  "pslots ident = nonzero (map (slot ident) [5..<9])"

definition pad :: "nat \<Rightarrow> int list \<Rightarrow> int list" where
  "pad n xs = xs @ replicate (n - length xs) 0"

lemma nonzero_snoc: "nonzero (xs @ [c]) = (if c \<noteq> 0 then nonzero xs @ [c] else nonzero xs)"
  by (simp add: nonzero_def)

lemma length_nonzero_le: "length (nonzero xs) \<le> length xs"
  by (simp add: nonzero_def)

lemma pad_update: "length vs < n \<Longrightarrow> (pad n vs)[length vs := c] = pad n (vs @ [c])"
proof -
  assume "length vs < n"
  then obtain m where m: "n - length vs = Suc m"
    by (cases "n - length vs") auto
  then have "n - Suc (length vs) = m" by simp
  with m show ?thesis
    by (simp add: pad_def list_update_append)
qed

lemma unpack64_board_phase:
  "k \<le> 5 \<Longrightarrow>
   foldl (unpack64_step ident)
     \<lparr>pocket = replicate 4 0, board = replicate 5 0, n_pocket = 0, n_board = 0\<rparr> [0..<k] =
   \<lparr>pocket = replicate 4 0,
    board = pad 5 (nonzero (map (slot ident) [0..<k])),
    n_pocket = 0,
    n_board = length (nonzero (map (slot ident) [0..<k]))\<rparr>"
proof (induction k)
  case 0
  then show ?case by (simp add: pad_def nonzero_def)
next
  case (Suc k)
  let ?vs = "nonzero (map (slot ident) [0..<k])"
  have "length ?vs \<le> k"
    using length_nonzero_le [of "map (slot ident) [0..<k]"] by simp
  with Suc.prems have len: "length ?vs < 5" by simp
  have k5: "k < 5" using Suc.prems by simp
  have ih: "foldl (unpack64_step ident)
     \<lparr>pocket = replicate 4 0, board = replicate 5 0, n_pocket = 0, n_board = 0\<rparr> [0..<k] =
     \<lparr>pocket = replicate 4 0, board = pad 5 ?vs, n_pocket = 0, n_board = length ?vs\<rparr>"
    using Suc by simp
  have "foldl (unpack64_step ident)
     \<lparr>pocket = replicate 4 0, board = replicate 5 0, n_pocket = 0, n_board = 0\<rparr> [0..<Suc k] =
     unpack64_step ident
       \<lparr>pocket = replicate 4 0, board = pad 5 ?vs, n_pocket = 0, n_board = length ?vs\<rparr> k"
    by (simp only: upt_Suc_append [OF le0] foldl_append foldl.simps ih)
  also have "\<dots> =
     \<lparr>pocket = replicate 4 0,
      board = pad 5 (nonzero (map (slot ident) [0..<k] @ [slot ident k])),
      n_pocket = 0,
      n_board = length (nonzero (map (slot ident) [0..<k] @ [slot ident k]))\<rparr>"
    by (simp add: unpack64_step_def Let_def nonzero_snoc pad_update [OF len] k5)
  finally show ?case by simp
qed

lemma unpack64_pocket_phase:
  "k \<le> 4 \<Longrightarrow>
   foldl (unpack64_step ident)
     \<lparr>pocket = replicate 4 0, board = b, n_pocket = 0, n_board = nb\<rparr> [5..<5 + k] =
   \<lparr>pocket = pad 4 (nonzero (map (slot ident) [5..<5 + k])),
    board = b,
    n_pocket = length (nonzero (map (slot ident) [5..<5 + k])),
    n_board = nb\<rparr>"
proof (induction k)
  case 0
  then show ?case by (simp add: pad_def nonzero_def)
next
  case (Suc k)
  let ?vs = "nonzero (map (slot ident) [5..<5 + k])"
  have "length ?vs \<le> k"
    using length_nonzero_le [of "map (slot ident) [5..<5 + k]"] by simp
  with Suc.prems have len: "length ?vs < 4" by simp
  have ih: "foldl (unpack64_step ident)
     \<lparr>pocket = replicate 4 0, board = b, n_pocket = 0, n_board = nb\<rparr> [5..<5 + k] =
     \<lparr>pocket = pad 4 ?vs, board = b, n_pocket = length ?vs, n_board = nb\<rparr>"
    using Suc by simp
  have upt: "[5..<5 + Suc k] = [5..<5 + k] @ [5 + k]"
    by (simp only: add_Suc_right upt_Suc_append [OF le_add1])
  have "foldl (unpack64_step ident)
     \<lparr>pocket = replicate 4 0, board = b, n_pocket = 0, n_board = nb\<rparr> [5..<5 + Suc k] =
     unpack64_step ident
       \<lparr>pocket = pad 4 ?vs, board = b, n_pocket = length ?vs, n_board = nb\<rparr> (5 + k)"
    by (simp only: upt foldl_append foldl.simps ih)
  also have "\<dots> =
     \<lparr>pocket = pad 4 (nonzero (map (slot ident) [5..<5 + k] @ [slot ident (5 + k)])),
      board = b,
      n_pocket = length (nonzero (map (slot ident) [5..<5 + k] @ [slot ident (5 + k)])),
      n_board = nb\<rparr>"
    by (simp add: unpack64_step_def Let_def nonzero_snoc pad_update [OF len])
  finally show ?case unfolding upt by simp
qed

lemma unpack64_eq:
  "unpack64 ident =
     \<lparr>pocket = pad 4 (pslots ident), board = pad 5 (bslots ident),
      n_pocket = length (pslots ident), n_board = length (bslots ident)\<rparr>"
proof -
  have "[0..<9] = [0..<5] @ [5..<5 + 4]"
    by (simp add: upt_conv_Cons)
  then show ?thesis
    using unpack64_board_phase [of 5 ident] unpack64_pocket_phase [of 4 ident]
    by (simp add: unpack64_def bslots_def pslots_def del: upt_Suc)
qed


fun horner :: "int list \<Rightarrow> int" where
  "horner [] = 0"
| "horner (x # xs) = x + 128 * horner xs"

lemma slot_0_add: "0 \<le> x \<Longrightarrow> x < 128 \<Longrightarrow> slot (x + 128 * r) 0 = x"
  by (simp add: slot_div_mod)

lemma slot_Suc_add: "0 \<le> x \<Longrightarrow> x < 128 \<Longrightarrow> slot (x + 128 * r) (Suc i) = slot r i"
proof -
  assume x: "0 \<le> x" "x < 128"
  have "(2::int) ^ (7 * Suc i) = 128 * 2 ^ (7 * i)"
    by (simp add: power_add)
  then have "(x + 128 * r) div 2 ^ (7 * Suc i) = (x + 128 * r) div 128 div 2 ^ (7 * i)"
    by (simp only: zdiv_zmult2_eq [of "2 ^ (7 * i)" "x + 128 * r" 128, OF zero_le_power [of 2 "7 * i", OF zero_le_numeral]])
  also have "(x + 128 * r) div 128 = r"
    using x by simp
  finally show ?thesis
    by (simp only: slot_div_mod)
qed

lemma slot_zero: "slot 0 i = 0"
  by (simp add: slot_div_mod)

lemma slot_horner:
  "\<forall>x\<in>set xs. 0 \<le> x \<and> x < 128 \<Longrightarrow>
   slot (horner xs) i = (if i < length xs then xs ! i else 0)"
proof (induction xs arbitrary: i)
  case Nil
  then show ?case by (simp add: slot_zero)
next
  case (Cons x xs)
  then show ?case
    by (cases i) (simp_all add: slot_0_add slot_Suc_add)
qed

lemma horner_nonneg: "\<forall>x\<in>set xs. 0 \<le> x \<Longrightarrow> 0 \<le> horner xs"
  by (induction xs) simp_all

lemma list4: "length xs = 4 \<Longrightarrow> \<exists>a b c d. xs = [a, b, c, d]"
  by (auto simp: length_Suc_conv numeral_eq_Suc)

lemma list5: "length xs = 5 \<Longrightarrow> \<exists>a b c d e. xs = [a, b, c, d, e]"
  by (auto simp: length_Suc_conv numeral_eq_Suc)

lemma pack64_horner:
  assumes "length p = 4" and "length b = 5"
  shows "pack64 p b = horner (rev (sort b) @ rev (sort p))"
proof -
  from assms obtain p0 p1 p2 p3 where p: "rev (sort p) = [p0, p1, p2, p3]"
    using list4 [of "rev (sort p)"] by auto
  from assms obtain b0 b1 b2 b3 b4 where b: "rev (sort b) = [b0, b1, b2, b3, b4]"
    using list5 [of "rev (sort b)"] by auto
  show ?thesis
    by (simp add: pack64_def Let_def p b push_bit_eq_mult)
qed

lemma slots_pack64:
  assumes "length p = 4" and "length b = 5"
    and "\<forall>x\<in>set p. 0 \<le> x \<and> x < 128" and "\<forall>x\<in>set b. 0 \<le> x \<and> x < 128"
  shows "map (slot (pack64 p b)) [0..<9] = rev (sort b) @ rev (sort p)"
proof -
  let ?xs = "rev (sort b) @ rev (sort p)"
  have len: "length ?xs = 9" using assms by simp
  have rng: "\<forall>x\<in>set ?xs. 0 \<le> x \<and> x < 128" using assms by auto
  have "map (slot (pack64 p b)) [0..<9] = map (\<lambda>i. ?xs ! i) [0..<length ?xs]"
    unfolding len pack64_horner [OF assms(1,2)]
    using assms(1,2) by (intro map_cong) (simp_all add: slot_horner [OF rng])
  then show ?thesis
    by (simp only: map_nth)
qed


lemma length_pad: "length xs \<le> n \<Longrightarrow> length (pad n xs) = n"
  by (simp add: pad_def)

lemma nonzero_pad: "nonzero (pad n xs) = nonzero xs"
  by (simp add: pad_def nonzero_def)

lemma nonzero_idem: "nonzero (nonzero xs) = nonzero xs"
  by (simp add: nonzero_def)

lemma set_pad: "set (pad n xs) \<subseteq> insert 0 (set xs)"
  by (auto simp: pad_def)

lemma length_bslots: "length (bslots ident) \<le> 5"
  using length_nonzero_le [of "map (slot ident) [0..<5]"] by (simp add: bslots_def)

lemma length_pslots: "length (pslots ident) \<le> 4"
  using length_nonzero_le [of "map (slot ident) [5..<9]"] by (simp add: pslots_def)

lemma nonzero_slots_range: "x \<in> set (nonzero (map (slot ident) js)) \<Longrightarrow> 0 < x \<and> x < 128"
  using slot_range by (auto simp: nonzero_def order_less_le)

lemma bslots_range: "x \<in> set (bslots ident) \<Longrightarrow> 0 < x \<and> x < 128"
  unfolding bslots_def by (rule nonzero_slots_range)

lemma pslots_range: "x \<in> set (pslots ident) \<Longrightarrow> 0 < x \<and> x < 128"
  unfolding pslots_def by (rule nonzero_slots_range)

lemma count_cards_slots: "count_cards ident = length (bslots ident) + length (pslots ident)"
proof -
  have "[0..<9] = [0..<5] @ [5..<9]"
    by (simp add: upt_conv_Cons)
  then have "map (slot ident) [0..<9] = map (slot ident) [0..<5] @ map (slot ident) [5..<9]"
    by (simp only: map_append)
  then show ?thesis
    by (simp add: count_cards_filter bslots_def pslots_def nonzero_def)
qed

lemma length_nonzero_perm: "mset xs = mset ys \<Longrightarrow> length (nonzero xs) = length (nonzero ys)"
proof -
  assume "mset xs = mset ys"
  then have "size (filter_mset (\<lambda>c. c \<noteq> 0) (mset xs)) = size (filter_mset (\<lambda>c. c \<noteq> 0) (mset ys))"
    by simp
  then show ?thesis
    by (simp only: nonzero_def mset_filter [symmetric] size_mset)
qed

lemma count_cards_pack64:
  assumes "length p = 4" and "length b = 5"
    and "\<forall>x\<in>set p. 0 \<le> x \<and> x < 128" and "\<forall>x\<in>set b. 0 \<le> x \<and> x < 128"
  shows "count_cards (pack64 p b) = length (nonzero b) + length (nonzero p)"
proof -
  have "count_cards (pack64 p b) = length (nonzero (rev (sort b) @ rev (sort p)))"
    by (simp only: count_cards_filter slots_pack64 [OF assms] nonzero_def)
  also have "\<dots> = length (nonzero (rev (sort b))) + length (nonzero (rev (sort p)))"
    by (simp add: nonzero_def)
  also have "length (nonzero (rev (sort b))) = length (nonzero b)"
    by (rule length_nonzero_perm) simp
  also have "length (nonzero (rev (sort p))) = length (nonzero p)"
    by (rule length_nonzero_perm) simp
  finally show ?thesis .
qed

lemma pack64_nonneg:
  assumes "length p = 4" and "length b = 5"
    and "\<forall>x\<in>set p. 0 \<le> x" and "\<forall>x\<in>set b. 0 \<le> x"
  shows "0 \<le> pack64 p b"
  unfolding pack64_horner [OF assms(1,2)]
  by (rule horner_nonneg) (use assms in auto)

text \<open>The hand after \<open>unpack64\<close> and \<open>add_card\<close>.\<close>

lemma add_card_unpack64:
  "add_card c (unpack64 ident) =
     (if length (bslots ident) < 5
      then Some \<lparr>pocket = pad 4 (pslots ident), board = pad 5 (bslots ident @ [c]),
                 n_pocket = length (pslots ident), n_board = length (bslots ident) + 1\<rparr>
      else if length (pslots ident) < 4
      then Some \<lparr>pocket = pad 4 (pslots ident @ [c]), board = pad 5 (bslots ident),
                 n_pocket = length (pslots ident) + 1, n_board = length (bslots ident)\<rparr>
      else None)"
  by (simp add: add_card_def unpack64_eq pad_update)

lemma add_card_unpack64_Some:
  assumes "count_cards ident \<le> 8"
  obtains h where "add_card c (unpack64 ident) = Some h"
    and "length (pocket h) = 4" and "length (board h) = 5"
    and "mset (nonzero (board h)) + mset (nonzero (pocket h)) =
         mset (nonzero [c]) + mset (bslots ident) + mset (pslots ident)"
    and "set (board h) \<union> set (pocket h) \<subseteq> {0, c} \<union> set (bslots ident) \<union> set (pslots ident)"
proof (cases "length (bslots ident) < 5")
  case True
  let ?h = "\<lparr>pocket = pad 4 (pslots ident), board = pad 5 (bslots ident @ [c]),
             n_pocket = length (pslots ident), n_board = length (bslots ident) + 1\<rparr>"
  have 1: "add_card c (unpack64 ident) = Some ?h"
    using True by (simp add: add_card_unpack64)
  have 2: "length (pocket ?h) = 4" "length (board ?h) = 5"
    using True length_pslots [of ident] by (simp_all add: length_pad)
  have 3: "mset (nonzero (board ?h)) + mset (nonzero (pocket ?h)) =
         mset (nonzero [c]) + mset (bslots ident) + mset (pslots ident)"
    by (simp add: nonzero_pad) (simp add: nonzero_def bslots_def pslots_def)
  have 4: "set (board ?h) \<union> set (pocket ?h) \<subseteq> {0, c} \<union> set (bslots ident) \<union> set (pslots ident)"
    using set_pad [of 4 "pslots ident"] set_pad [of 5 "bslots ident @ [c]"] by auto
  from 1 2 3 4 show ?thesis by (rule that)
next
  case False
  with assms have lt: "length (pslots ident) < 4"
    by (simp add: count_cards_slots)
  let ?h = "\<lparr>pocket = pad 4 (pslots ident @ [c]), board = pad 5 (bslots ident),
             n_pocket = length (pslots ident) + 1, n_board = length (bslots ident)\<rparr>"
  have 1: "add_card c (unpack64 ident) = Some ?h"
    using False lt by (simp add: add_card_unpack64)
  have 2: "length (pocket ?h) = 4" "length (board ?h) = 5"
    using lt length_bslots [of ident] by (simp_all add: length_pad)
  have 3: "mset (nonzero (board ?h)) + mset (nonzero (pocket ?h)) =
         mset (nonzero [c]) + mset (bslots ident) + mset (pslots ident)"
    by (simp add: nonzero_pad) (simp add: nonzero_def bslots_def pslots_def)
  have 4: "set (board ?h) \<union> set (pocket ?h) \<subseteq> {0, c} \<union> set (bslots ident) \<union> set (pslots ident)"
    using set_pad [of 4 "pslots ident @ [c]"] set_pad [of 5 "bslots ident"] by auto
  from 1 2 3 4 show ?thesis by (rule that)
qed

lemma count_cards_0: "count_cards 0 = 0"
  by (simp add: count_cards_filter slot_zero)

lemma pad_nonzero_descending:
  "sorted_wrt (\<ge>) xs \<Longrightarrow> \<forall>x\<in>set xs. 0 \<le> x \<Longrightarrow> pad (length xs) (nonzero xs) = xs"
proof (induction xs)
  case Nil
  then show ?case by (simp add: pad_def nonzero_def)
next
  case (Cons x xs)
  show ?case
  proof (cases "x = 0")
    case True
    with Cons.prems have "\<forall>y\<in>set xs. y = 0"
      by fastforce
    then have "nonzero xs = []" "xs = replicate (length xs) 0"
      by (simp_all add: nonzero_def filter_empty_conv replicate_length_same)
    with True show ?thesis
      by (simp add: pad_def nonzero_def)
  next
    case False
    have "length (nonzero xs) \<le> length xs"
      by (rule length_nonzero_le)
    with False Cons show ?thesis
      by (simp add: pad_def nonzero_def Suc_diff_le)
  qed
qed

lemma unpack64_pack64:
  assumes "length p = 4" and "length b = 5"
    and "\<forall>x\<in>set p. 0 \<le> x \<and> x < 128" and "\<forall>x\<in>set b. 0 \<le> x \<and> x < 128"
  shows "unpack64 (pack64 p b) =
           \<lparr>pocket = rev (sort p), board = rev (sort b),
            n_pocket = length (nonzero p), n_board = length (nonzero b)\<rparr>"
proof -
  have all: "map (slot (pack64 p b)) [0..<9] = rev (sort b) @ rev (sort p)"
    by (rule slots_pack64 [OF assms])
  have "[0..<9] = [0..<5] @ [5..<9]"
    by (simp add: upt_conv_Cons)
  then have "map (slot (pack64 p b)) [0..<5] @ map (slot (pack64 p b)) [5..<9] =
             rev (sort b) @ rev (sort p)"
    using all by (simp only: map_append)
  then have lo: "map (slot (pack64 p b)) [0..<5] = rev (sort b)"
    and hi: "map (slot (pack64 p b)) [5..<9] = rev (sort p)"
    using assms(1,2) by (simp_all add: append_eq_append_conv)
  have b: "bslots (pack64 p b) = nonzero (rev (sort b))"
    and p: "pslots (pack64 p b) = nonzero (rev (sort p))"
    by (simp_all only: bslots_def pslots_def lo hi)
  have db: "sorted_wrt (\<ge>) (rev (sort b))" and dp: "sorted_wrt (\<ge>) (rev (sort p))"
    by (simp_all add: sorted_wrt_rev)
  have "pad (length (rev (sort b))) (nonzero (rev (sort b))) = rev (sort b)"
    using assms(4) by (intro pad_nonzero_descending db) simp
  then have pb: "pad 5 (nonzero (rev (sort b))) = rev (sort b)"
    using assms(2) by simp
  have "pad (length (rev (sort p))) (nonzero (rev (sort p))) = rev (sort p)"
    using assms(3) by (intro pad_nonzero_descending dp) simp
  then have pp: "pad 4 (nonzero (rev (sort p))) = rev (sort p)"
    using assms(1) by simp
  have nb: "length (nonzero (rev (sort b))) = length (nonzero b)"
    by (rule length_nonzero_perm) simp
  have np: "length (nonzero (rev (sort p))) = length (nonzero p)"
    by (rule length_nonzero_perm) simp
  show ?thesis
    by (simp only: unpack64_eq b p pb pp nb np)
qed

lemma slots_split:
  assumes "length p = 4" and "length b = 5"
    and "\<forall>x\<in>set p. 0 \<le> x \<and> x < 128" and "\<forall>x\<in>set b. 0 \<le> x \<and> x < 128"
  shows "map (slot (pack64 p b)) [0..<5] = rev (sort b)"
    and "map (slot (pack64 p b)) [5..<9] = rev (sort p)"
proof -
  have all: "map (slot (pack64 p b)) [0..<9] = rev (sort b) @ rev (sort p)"
    by (rule slots_pack64 [OF assms])
  have "[0..<9] = [0..<5] @ [5..<9]"
    by (simp add: upt_conv_Cons)
  then have "map (slot (pack64 p b)) [0..<5] @ map (slot (pack64 p b)) [5..<9] =
             rev (sort b) @ rev (sort p)"
    using all by (simp only: map_append)
  then show "map (slot (pack64 p b)) [0..<5] = rev (sort b)"
    and "map (slot (pack64 p b)) [5..<9] = rev (sort p)"
    using assms(1,2) by (simp_all add: append_eq_append_conv)
qed

lemma mset_nonzero_perm: "mset xs = mset ys \<Longrightarrow> mset (nonzero xs) = mset (nonzero ys)"
  by (simp add: nonzero_def)

text \<open>
  The result of unpacking an identifier with a free slot, adding a non-zero value
  below 128 and packing: the value joins the board while it has room, the pocket
  otherwise, and both groups are stored in descending order.
\<close>

lemma push_card_defined:
  assumes "count_cards ident \<le> 8"
  shows "\<exists>r. map_option pack_hand (add_card c (unpack64 ident)) = Some r"
proof -
  from assms obtain h where "add_card c (unpack64 ident) = Some h"
    by (rule add_card_unpack64_Some)
  then show ?thesis
    by simp
qed

lemma push_card:
  assumes "count_cards ident \<le> 8" and "0 < c" and "c < 128"
    and "map_option pack_hand (add_card c (unpack64 ident)) = Some r"
  shows "0 \<le> r" and "count_cards r = count_cards ident + 1"
    and "length (bslots ident) < 5 \<Longrightarrow>
           mset (bslots r) = add_mset c (mset (bslots ident)) \<and> mset (pslots r) = mset (pslots ident)"
    and "\<not> length (bslots ident) < 5 \<Longrightarrow>
           mset (bslots r) = mset (bslots ident) \<and> mset (pslots r) = add_mset c (mset (pslots ident))"
    and "sorted_wrt (\<ge>) (map (slot r) [0..<5])" and "sorted_wrt (\<ge>) (map (slot r) [5..<9])"
proof -
  from assms(1) obtain h where h: "add_card c (unpack64 ident) = Some h"
    and lp: "length (pocket h) = 4" and lb: "length (board h) = 5"
    and ms: "mset (nonzero (board h)) + mset (nonzero (pocket h)) =
         mset (nonzero [c]) + mset (bslots ident) + mset (pslots ident)"
    and st: "set (board h) \<union> set (pocket h) \<subseteq> {0, c} \<union> set (bslots ident) \<union> set (pslots ident)"
    by (rule add_card_unpack64_Some)
  have rng: "\<forall>x\<in>set (pocket h). 0 \<le> x \<and> x < 128" "\<forall>x\<in>set (board h). 0 \<le> x \<and> x < 128"
  proof -
    have "0 \<le> x \<and> x < 128" if "x \<in> set (board h) \<union> set (pocket h)" for x
    proof -
      from that st have "x = 0 \<or> x = c \<or> x \<in> set (bslots ident) \<or> x \<in> set (pslots ident)"
        by auto
      then show ?thesis
        using assms(2,3) bslots_range [of x ident] pslots_range [of x ident] by auto
    qed
    then show "\<forall>x\<in>set (pocket h). 0 \<le> x \<and> x < 128" "\<forall>x\<in>set (board h). 0 \<le> x \<and> x < 128"
      by simp_all
  qed
  from h assms(4) have r: "r = pack_hand h"
    by simp
  let ?r = "pack_hand h"
  have lo: "map (slot ?r) [0..<5] = rev (sort (board h))"
    and hi: "map (slot ?r) [5..<9] = rev (sort (pocket h))"
    unfolding pack_hand_def by (rule slots_split [OF lp lb rng])+
  have bs: "mset (bslots ?r) = mset (nonzero (board h))"
    and ps: "mset (pslots ?r) = mset (nonzero (pocket h))"
    unfolding bslots_def pslots_def lo hi by (rule mset_nonzero_perm, simp)+
  have 2: "0 \<le> ?r"
    unfolding pack_hand_def using rng by (intro pack64_nonneg [OF lp lb]) auto
  have "size (mset (nonzero (board h)) + mset (nonzero (pocket h))) =
        size (mset (nonzero [c]) + mset (bslots ident) + mset (pslots ident))"
    by (simp only: ms)
  then have "length (nonzero (board h)) + length (nonzero (pocket h)) =
        length (nonzero [c]) + length (bslots ident) + length (pslots ident)"
    by (simp only: size_union size_mset)
  then have "length (nonzero (board h)) + length (nonzero (pocket h)) = count_cards ident + 1"
    using assms(2) by (simp add: count_cards_slots nonzero_def)
  then have 3: "count_cards ?r = count_cards ident + 1"
    by (simp add: pack_hand_def count_cards_pack64 [OF lp lb rng])
  have 4: "mset (bslots ?r) = add_mset c (mset (bslots ident)) \<and> mset (pslots ?r) = mset (pslots ident)"
    if "length (bslots ident) < 5"
  proof -
    from that h have "h = \<lparr>pocket = pad 4 (pslots ident), board = pad 5 (bslots ident @ [c]),
                 n_pocket = length (pslots ident), n_board = length (bslots ident) + 1\<rparr>"
      by (simp add: add_card_unpack64)
    then have "nonzero (board h) = nonzero (bslots ident @ [c])" "nonzero (pocket h) = nonzero (pslots ident)"
      by (simp_all add: nonzero_pad)
    then show ?thesis
      using assms(2) by (simp add: bs ps) (simp add: nonzero_def bslots_def pslots_def)
  qed
  have 5: "mset (bslots ?r) = mset (bslots ident) \<and> mset (pslots ?r) = add_mset c (mset (pslots ident))"
    if "\<not> length (bslots ident) < 5"
  proof -
    from that h have "h = \<lparr>pocket = pad 4 (pslots ident @ [c]), board = pad 5 (bslots ident),
                 n_pocket = length (pslots ident) + 1, n_board = length (bslots ident)\<rparr>"
      by (simp add: add_card_unpack64 split: if_splits)
    then have "nonzero (board h) = nonzero (bslots ident)" "nonzero (pocket h) = nonzero (pslots ident @ [c])"
      by (simp_all add: nonzero_pad)
    then show ?thesis
      using assms(2) by (simp add: bs ps) (simp add: nonzero_def bslots_def pslots_def)
  qed
  have 6: "sorted_wrt (\<ge>) (map (slot ?r) [0..<5])" "sorted_wrt (\<ge>) (map (slot ?r) [5..<9])"
    unfolding lo hi by (simp_all add: sorted_wrt_rev)
  from 2 show "0 \<le> r"
    by (simp only: r)
  from 3 show "count_cards r = count_cards ident + 1"
    by (simp only: r)
  show "mset (bslots r) = add_mset c (mset (bslots ident)) \<and> mset (pslots r) = mset (pslots ident)"
    if "length (bslots ident) < 5"
    using 4 [OF that] by (simp only: r)
  show "mset (bslots r) = mset (bslots ident) \<and> mset (pslots r) = add_mset c (mset (pslots ident))"
    if "\<not> length (bslots ident) < 5"
    using 5 [OF that] by (simp only: r)
  from 6 show "sorted_wrt (\<ge>) (map (slot r) [0..<5])" "sorted_wrt (\<ge>) (map (slot r) [5..<9])"
    by (simp_all only: r)
qed

section \<open>The generations of the enumeration\<close>

text \<open>
  The non-zero results of a transition on a queue, in the order the loops of
  \<open>generate_ids\<close> find them, and the queue after each round of the outer loop.
\<close>

definition successors :: "transition \<Rightarrow> int list \<Rightarrow> int list \<Rightarrow> int list" where
  "successors f cards q =
     concat (map (\<lambda>x. filter (\<lambda>r. r \<noteq> 0) (map (\<lambda>c. the (f x c)) cards)) q)"

fun generation :: "transition \<Rightarrow> nat \<Rightarrow> int list" where
  "generation f 0 = [0]"
| "generation f (Suc n) =
     remdups_adj (sort (successors f [min_card_generate (Suc n)..52] (generation f n)))"

text \<open>
  A transition preserves \<open>I\<close> when, from an identifier with \<open>I\<close> and a free slot, every
  card the loops offer (a skip only with at most one card placed) yields a result,
  and a non-zero result has \<open>I\<close> again and one more card.
\<close>

definition preserves :: "transition \<Rightarrow> (int \<Rightarrow> bool) \<Rightarrow> bool" where
  "preserves f I \<longleftrightarrow>
     I 0 \<and>
     (\<forall>x c. I x \<and> count_cards x \<le> 8 \<and> 0 \<le> c \<and> c \<le> 52 \<and> (c = 0 \<longrightarrow> count_cards x \<le> 1) \<longrightarrow>
        (\<exists>r. f x c = Some r \<and> (r \<noteq> 0 \<longrightarrow> I r \<and> count_cards r = count_cards x + 1)))"

lemma preservesD:
  assumes "preserves f I" and "I x" and "count_cards x \<le> 8" and "0 \<le> c" and "c \<le> 52"
    and "c = 0 \<longrightarrow> count_cards x \<le> 1"
  shows "\<exists>r. f x c = Some r \<and> (r \<noteq> 0 \<longrightarrow> I r \<and> count_cards r = count_cards x + 1)"
  using assms unfolding preserves_def by blast

lemma expand_id_Some:
  "\<forall>c\<in>set cards. f x c \<noteq> None \<Longrightarrow>
   expand_id f x cards acc = Some (acc @ filter (\<lambda>r. r \<noteq> 0) (map (\<lambda>c. the (f x c)) cards))"
  by (induction cards arbitrary: acc) auto

lemma expand_queue_Some:
  "\<forall>x\<in>set q. \<forall>c\<in>set cards. f x c \<noteq> None \<Longrightarrow>
   expand_queue f cards q acc = Some (acc @ successors f cards q)"
proof (induction q arbitrary: acc)
  case Nil
  then show ?case by (simp add: successors_def)
next
  case (Cons x q)
  then have "expand_id f x cards acc =
      Some (acc @ filter (\<lambda>r. r \<noteq> 0) (map (\<lambda>c. the (f x c)) cards))"
    by (intro expand_id_Some) simp
  moreover have "expand_queue f cards q (acc @ filter (\<lambda>r. r \<noteq> 0) (map (\<lambda>c. the (f x c)) cards)) =
      Some ((acc @ filter (\<lambda>r. r \<noteq> 0) (map (\<lambda>c. the (f x c)) cards)) @ successors f cards q)"
    using Cons.prems by (intro Cons.IH) simp
  ultimately show ?case
    by (simp add: successors_def)
qed

lemma set_successors:
  "set (successors f cards q) = {r. r \<noteq> 0 \<and> (\<exists>x\<in>set q. \<exists>c\<in>set cards. r = the (f x c))}"
  by (auto simp: successors_def)

lemma set_generation_Suc:
  "set (generation f (Suc n)) =
     {r. r \<noteq> 0 \<and> (\<exists>x\<in>set (generation f n). \<exists>c. min_card_generate (Suc n) \<le> c \<and> c \<le> 52 \<and>
           r = the (f x c))}"
  by (simp add: set_successors Bex_def)

lemma min_card_generate_skip: "min_card_generate (Suc n) \<le> c \<Longrightarrow> c = 0 \<Longrightarrow> n \<le> 1"
  by (simp add: min_card_generate_def split: if_splits)

lemma min_card_generate_nonneg: "min_card_generate (Suc n) \<le> c \<Longrightarrow> 0 \<le> c"
  by (simp add: min_card_generate_def split: if_splits)

lemma generation_invariant:
  assumes "preserves f I"
  shows "n \<le> 9 \<Longrightarrow> x \<in> set (generation f n) \<Longrightarrow> I x \<and> count_cards x = n"
proof (induction n arbitrary: x)
  case 0
  with assms show ?case
    by (simp add: preserves_def count_cards_0)
next
  case (Suc n)
  from Suc.prems(2) obtain y c where y: "y \<in> set (generation f n)"
    and c: "min_card_generate (Suc n) \<le> c" "c \<le> 52" and x: "x = the (f y c)" "x \<noteq> 0"
    unfolding set_generation_Suc by blast
  from Suc.IH [OF _ y] Suc.prems(1) have iy: "I y" and cy: "count_cards y = n"
    by simp_all
  from Suc.prems(1) cy have le: "count_cards y \<le> 8"
    by simp
  have "c = 0 \<longrightarrow> count_cards y \<le> 1"
    using c(1) cy min_card_generate_skip by simp
  from preservesD [OF assms iy le min_card_generate_nonneg [OF c(1)] c(2) this]
  obtain r where r: "f y c = Some r" "r \<noteq> 0 \<longrightarrow> I r \<and> count_cards r = count_cards y + 1"
    by blast
  with x cy show ?case
    by simp
qed

lemma generation_defined:
  assumes "preserves f I" and "n \<le> 8" and "x \<in> set (generation f n)"
    and "min_card_generate (Suc n) \<le> c" and "c \<le> 52"
  shows "\<exists>r. f x c = Some r"
proof -
  from generation_invariant [OF assms(1) _ assms(3)] assms(2)
  have ix: "I x" and cx: "count_cards x = n"
    by simp_all
  from assms(2) cx have le: "count_cards x \<le> 8"
    by simp
  have "c = 0 \<longrightarrow> count_cards x \<le> 1"
    using assms(4) cx min_card_generate_skip by simp
  from preservesD [OF assms(1) ix le min_card_generate_nonneg [OF assms(4)] assms(5) this]
  show ?thesis
    by blast
qed

lemma generate_loop_generation:
  assumes "preserves f I"
  shows "k + d \<le> 9 \<Longrightarrow>
         generate_loop f [Suc k..<Suc k + d] (l, generation f k) =
           Some (l @ concat (map (generation f) [Suc k..<Suc k + d]), generation f (k + d))"
proof (induction d arbitrary: k l)
  case 0
  then show ?case by simp
next
  case (Suc d)
  have upt: "[Suc k..<Suc k + Suc d] = Suc k # [Suc (Suc k)..<Suc (Suc k) + d]"
    by (simp add: upt_conv_Cons)
  have "\<forall>x\<in>set (generation f k). \<forall>c\<in>set [min_card_generate (Suc k)..52]. f x c \<noteq> None"
  proof (intro ballI)
    fix x c
    assume "x \<in> set (generation f k)" and "c \<in> set [min_card_generate (Suc k)..52]"
    then have "\<exists>r. f x c = Some r"
      using Suc.prems by (intro generation_defined [OF assms, of k]) simp_all
    then show "f x c \<noteq> None"
      by auto
  qed
  then have eq: "expand_queue f [min_card_generate (Suc k)..52] (generation f k) [] =
      Some (successors f [min_card_generate (Suc k)..52] (generation f k))"
    using expand_queue_Some [of "generation f k" "[min_card_generate (Suc k)..52]" f "[]"]
    by simp
  have "generate_loop f [Suc (Suc k)..<Suc (Suc k) + d] (l @ generation f (Suc k), generation f (Suc k)) =
      Some ((l @ generation f (Suc k)) @ concat (map (generation f) [Suc (Suc k)..<Suc (Suc k) + d]),
            generation f (Suc k + d))"
    using Suc.prems by (intro Suc.IH) simp
  then show ?case
    unfolding upt by (simp add: eq Let_def del: upt_Suc)
qed

lemma generate_loop_prefix:
  assumes "preserves f I" and "n \<le> 9"
  shows "generate_loop f [1..<Suc n] ([0], [0]) =
           Some (concat (map (generation f) [0..<Suc n]), generation f n)"
proof -
  have "generate_loop f [Suc 0..<Suc 0 + n] ([0], generation f 0) =
          Some ([0] @ concat (map (generation f) [Suc 0..<Suc 0 + n]), generation f (0 + n))"
    using assms(2) by (intro generate_loop_generation [OF assms(1)]) simp
  moreover have "[0..<Suc n] = 0 # [Suc 0..<Suc n]"
    by (simp add: upt_conv_Cons)
  ultimately show ?thesis
    by (simp del: upt_Suc)
qed

lemma generate_ids_generation:
  assumes "preserves f I"
  shows "generate_ids f = Some (sort (concat (map (generation f) [0..<9])))"
  using generate_loop_prefix [OF assms, of 8] by (simp add: generate_ids_def del: upt_Suc)

lemma sorted_distinct_remdups_adj: "sorted xs \<Longrightarrow> distinct (remdups_adj (xs :: int list))"
proof (induction xs rule: remdups_adj.induct)
  case (3 x y xs)
  then show ?case
    by (cases "x = y") (auto simp: order_less_le)
qed simp_all

lemma distinct_generation: "distinct (generation f n)"
  by (cases n) (simp_all add: sorted_distinct_remdups_adj)

lemma sorted_generation: "sorted (generation f n)"
  by (cases n) simp_all

lemma distinct_concat_generations:
  assumes "preserves f I"
  shows "m \<le> 10 \<Longrightarrow> distinct (concat (map (generation f) [0..<m]))"
proof (induction m)
  case 0
  then show ?case by simp
next
  case (Suc m)
  have "x \<notin> set (generation f m)" if "x \<in> set (generation f k)" and "k < m" for k x
  proof
    assume "x \<in> set (generation f m)"
    then have "count_cards x = m"
      using generation_invariant [OF assms, of m x] Suc.prems by simp
    moreover have "count_cards x = k"
      using generation_invariant [OF assms, of k x] that Suc.prems by simp
    ultimately show False
      using that(2) by simp
  qed
  with Suc show ?case
    by (auto simp: distinct_generation)
qed

section \<open>Well-formed identifiers\<close>

text \<open>
  The identifiers an automaton works on: non-negative, the board slots in descending
  order, every pocket value at most \<open>m\<close>, every board value at most \<open>m\<close> or the skip
  sentinel, and at most two skips. The bound \<open>m\<close> is 4 for the flush suits, 14 for the
  flush ranks and 13 for the ranks without flush.
\<close>

definition canonical :: "int \<Rightarrow> int \<Rightarrow> bool" where
  "canonical m x \<longleftrightarrow>
     0 \<le> x \<and> sorted_wrt (\<ge>) (map (slot x) [0..<5]) \<and>
     (\<forall>v\<in>set (pslots x). v \<le> m) \<and>
     (\<forall>v\<in>set (bslots x). v \<le> m \<or> v = 53) \<and>
     count (mset (bslots x)) 53 \<le> 2"

lemma bslots_0: "bslots 0 = []"
  by (simp add: bslots_def nonzero_def slot_zero)

lemma pslots_0: "pslots 0 = []"
  by (simp add: pslots_def nonzero_def slot_zero)

lemma canonical_0: "canonical m 0"
  by (simp add: canonical_def bslots_0 pslots_0) (simp add: slot_zero upt_conv_Cons)

lemma take_pad: "length xs \<le> n \<Longrightarrow> take (length xs) (pad n xs) = xs"
  by (simp add: pad_def)

lemma take_pocket_unpack64: "take (n_pocket (unpack64 x)) (pocket (unpack64 x)) = pslots x"
  by (simp add: unpack64_eq take_pad length_pslots)

lemma take_board_unpack64: "take (n_board (unpack64 x)) (board (unpack64 x)) = bslots x"
  by (simp add: unpack64_eq take_pad length_bslots)

lemma canonical_push:
  assumes "canonical m x" and "count_cards x \<le> 8" and "m < 53" and "0 < m"
    and "(v = 53 \<and> count_cards x \<le> 1) \<or> (0 < v \<and> v \<le> m)"
    and "map_option pack_hand (add_card v (unpack64 x)) = Some r"
  shows "canonical m r \<and> count_cards r = count_cards x + 1"
proof -
  from assms(3,5) have v: "0 < v" "v < 128"
    by auto
  note pc = push_card [OF assms(2) v assms(6)]
  from assms(1) have px: "\<forall>u\<in>set (pslots x). u \<le> m" and bx: "\<forall>u\<in>set (bslots x). u \<le> m \<or> u = 53"
    and c53: "count (mset (bslots x)) 53 \<le> 2"
    by (simp_all add: canonical_def)
  have "(\<forall>u\<in>set (pslots r). u \<le> m) \<and> (\<forall>u\<in>set (bslots r). u \<le> m \<or> u = 53) \<and>
        count (mset (bslots r)) 53 \<le> 2"
  proof (cases "length (bslots x) < 5")
    case True
    from pc(3) [OF True] have b: "mset (bslots r) = add_mset v (mset (bslots x))"
      and p: "mset (pslots r) = mset (pslots x)"
      by simp_all
    from b have sb': "set (bslots r) = insert v (set (bslots x))"
      by (metis set_mset_add_mset_insert set_mset_mset)
    from p have sp': "set (pslots r) = set (pslots x)"
      by (metis set_mset_mset)
    have "count (mset (bslots r)) 53 \<le> 2"
    proof (cases "v = 53")
      case True
      with assms(3,5) have "count_cards x \<le> 1"
        by auto
      then have "length (bslots x) \<le> 1"
        by (simp add: count_cards_slots)
      moreover have "count (mset (bslots x)) 53 \<le> size (mset (bslots x))"
        by (rule count_le_size)
      ultimately show ?thesis
        by (simp add: b True)
    next
      case False
      with c53 show ?thesis
        by (simp add: b)
    qed
    with assms(5) px bx show ?thesis
      by (auto simp: sb' sp')
  next
    case False
    from pc(4) [OF False] have b: "mset (bslots r) = mset (bslots x)"
      and p: "mset (pslots r) = add_mset v (mset (pslots x))"
      by simp_all
    from b have sb': "set (bslots r) = set (bslots x)"
      by (metis set_mset_mset)
    from p have sp': "set (pslots r) = insert v (set (pslots x))"
      by (metis set_mset_add_mset_insert set_mset_mset)
    from False have "\<not> count_cards x \<le> 1"
      by (simp add: count_cards_slots)
    with assms(5) have "v \<le> m"
      by auto
    with px bx c53 show ?thesis
      by (auto simp: sb' sp' b)
  qed
  with pc(1,2,5) show ?thesis
    by (simp add: canonical_def)
qed

text \<open>In a well-formed identifier the skip sentinel occupies board slots 0 and 1 only.\<close>

lemma canonical_skip_slots:
  assumes "canonical m x" and "m < 53" and "i < 9" and "slot x i = 53"
  shows "i < 2"
proof (rule ccontr)
  assume "\<not> i < 2"
  then have i2: "2 \<le> i" by simp
  have five: "[0..<5] = [0, 1, 2, 3, 4]" "[5..<9] = [5, 6, 7, 8]"
    by (simp_all add: upt_conv_Cons)
  show False
  proof (cases "i < 5")
    case False
    with assms(3) have "i \<in> {5, 6, 7, 8}" by auto
    with assms(4) have "53 \<in> set (pslots x)"
      by (auto simp: pslots_def nonzero_def five)
    with assms(1,2) show False
      by (auto simp: canonical_def)
  next
    case True
    from assms(1) have srt: "sorted_wrt (\<ge>) [slot x 0, slot x 1, slot x 2, slot x 3, slot x 4]"
      and bx: "\<forall>v\<in>set (bslots x). v \<le> m \<or> v = 53" and c53: "count (mset (bslots x)) 53 \<le> 2"
      by (simp_all add: canonical_def five)
    from True i2 have "i \<in> {2, 3, 4}" by auto
    with srt assms(4) have ge: "53 \<le> slot x 0" "53 \<le> slot x 1" "53 \<le> slot x 2"
      by auto
    have le: "slot x j \<le> 53" if "j < 5" for j
    proof (cases "slot x j = 0")
      case True
      then show ?thesis by simp
    next
      case False
      from that have "j \<in> {0, 1, 2, 3, 4}" by auto
      with False have "slot x j \<in> set (bslots x)"
        by (auto simp: bslots_def nonzero_def five)
      with bx assms(2) show ?thesis by fastforce
    qed
    from ge le [of 0] le [of 1] le [of 2] have "slot x 0 = 53" "slot x 1 = 53" "slot x 2 = 53"
      by simp_all
    then have "3 \<le> count (mset (bslots x)) 53"
      by (simp add: bslots_def nonzero_def five)
    with c53 show False by simp
  qed
qed

section \<open>The three transitions preserve well-formedness\<close>

lemma and_3: "(k :: int) AND 3 = k mod 4"
  using take_bit_eq_mask [of 2 k] by (simp add: take_bit_eq_mod mask_eq_exp_minus_1)

lemma and_15: "(k :: int) AND 15 = k mod 16"
  using take_bit_eq_mask [of 4 k] by (simp add: take_bit_eq_mod mask_eq_exp_minus_1)

lemma suit_of_card: "1 \<le> ((c :: int) - 1 AND 3) + 1 \<and> (c - 1 AND 3) + 1 \<le> 4"
proof -
  have "0 \<le> (c - 1) mod 4" "(c - 1) mod 4 < 4"
    by simp_all
  then show ?thesis
    unfolding and_3 by linarith
qed

lemma rank_of_card:
  assumes "1 \<le> (c :: int)" and "c \<le> 52" and "0 \<le> k" and "k \<le> 3"
  shows "(k + drop_bit 2 (c - 1)) AND 15 = k + (c - 1) div 4"
    and "0 \<le> (c - 1) div 4" and "(c - 1) div 4 \<le> 12"
proof -
  show lo: "0 \<le> (c - 1) div 4" and hi: "(c - 1) div 4 \<le> 12"
    using assms by simp_all
  have "(k + (c - 1) div 4) mod 16 = k + (c - 1) div 4"
    using lo hi assms(3,4) by (intro mod_pos_pos_trivial) simp_all
  then show "(k + drop_bit 2 (c - 1)) AND 15 = k + (c - 1) div 4"
    by (simp add: and_15 drop_bit_eq_div)
qed

lemma preserves_flush_suits: "preserves add_card_to_id_flush_suits (canonical 4)"
  unfolding preserves_def
proof (intro conjI allI impI)
  show "canonical 4 0"
    by (rule canonical_0)
next
  fix x c :: int
  assume a: "canonical 4 x \<and> count_cards x \<le> 8 \<and> 0 \<le> c \<and> c \<le> 52 \<and> (c = 0 \<longrightarrow> count_cards x \<le> 1)"
  let ?v = "if c = 0 then SKIP_BOARD else ((c - 1) AND 3) + 1"
  from a obtain r where r: "map_option pack_hand (add_card ?v (unpack64 x)) = Some r"
    using push_card_defined [of x ?v] by blast
  have v: "(?v = 53 \<and> count_cards x \<le> 1) \<or> (0 < ?v \<and> ?v \<le> 4)"
    using a suit_of_card [of c] by (auto simp: SKIP_BOARD_def)
  have "canonical 4 r \<and> count_cards r = count_cards x + 1"
    using a by (intro canonical_push [OF _ _ _ _ v r]) simp_all
  moreover have "add_card_to_id_flush_suits x c = Some r"
    unfolding add_card_to_id_flush_suits_def Let_def by (rule r)
  ultimately show "\<exists>r. add_card_to_id_flush_suits x c = Some r \<and>
          (r \<noteq> 0 \<longrightarrow> canonical 4 r \<and> count_cards r = count_cards x + 1)"
    by blast
qed

lemma preserves_flush_ranks:
  "preserves (\<lambda>x c. add_card_to_id_flush_ranks x c s) (canonical 14)"
  unfolding preserves_def
proof (intro conjI allI impI)
  show "canonical 14 0"
    by (rule canonical_0)
next
  fix x c :: int
  assume a: "canonical 14 x \<and> count_cards x \<le> 8 \<and> 0 \<le> c \<and> c \<le> 52 \<and> (c = 0 \<longrightarrow> count_cards x \<le> 1)"
  let ?v = "if c = 0 then SKIP_BOARD
            else if ((c - 1) AND 3) + 1 = s then (2 + drop_bit 2 (c - 1)) AND 0xF else ANY_CARD"
  from a obtain h where h: "add_card ?v (unpack64 x) = Some h"
    using add_card_unpack64_Some [of x ?v] by blast
  have v: "(?v = 53 \<and> count_cards x \<le> 1) \<or> (0 < ?v \<and> ?v \<le> 14)"
  proof (cases "c = 0")
    case True
    with a show ?thesis by (simp add: SKIP_BOARD_def)
  next
    case False
    with a have c: "1 \<le> c" "c \<le> 52" by simp_all
    from rank_of_card [OF c, of 2] False show ?thesis
      by (simp add: ANY_CARD_def)
  qed
  have "canonical 14 (pack_hand h) \<and> count_cards (pack_hand h) = count_cards x + 1"
    using a h by (intro canonical_push [OF _ _ _ _ v]) simp_all
  with h show "\<exists>r. add_card_to_id_flush_ranks x c s = Some r \<and>
          (r \<noteq> 0 \<longrightarrow> canonical 14 r \<and> count_cards r = count_cards x + 1)"
    by (simp add: add_card_to_id_flush_ranks_def Let_def)
qed

lemma count_pocket_ranks_defined:
  "\<forall>c\<in>set cs. 0 \<le> c \<and> c < 14 \<Longrightarrow> \<exists>n'. count_pocket_ranks cs n = Some n'"
  by (induction cs arbitrary: n) (simp_all add: bump_rank_def)

lemma count_board_ranks_defined:
  "\<forall>c\<in>set cs. (0 \<le> c \<and> c < 14) \<or> c = SKIP_BOARD \<Longrightarrow> \<exists>n'. count_board_ranks cs n = Some n'"
  by (induction cs arbitrary: n) (auto simp: bump_rank_def)

lemma preserves_no_flush: "preserves add_card_to_id_no_flush (canonical 13)"
  unfolding preserves_def
proof (intro conjI allI impI)
  show "canonical 13 0"
    by (rule canonical_0)
next
  fix x c :: int
  assume a: "canonical 13 x \<and> count_cards x \<le> 8 \<and> 0 \<le> c \<and> c \<le> 52 \<and> (c = 0 \<longrightarrow> count_cards x \<le> 1)"
  let ?v = "if c = 0 then SKIP_BOARD else (1 + drop_bit 2 (c - 1)) AND 0xF"
  from a obtain h where h: "add_card ?v (unpack64 x) = Some h"
    using add_card_unpack64_Some [of x ?v] by blast
  have v: "(?v = 53 \<and> count_cards x \<le> 1) \<or> (0 < ?v \<and> ?v \<le> 13)"
  proof (cases "c = 0")
    case True
    with a show ?thesis by (simp add: SKIP_BOARD_def)
  next
    case False
    with a have c: "1 \<le> c" "c \<le> 52" by simp_all
    from rank_of_card [OF c, of 1] False show ?thesis
      by simp
  qed
  have push: "canonical 13 (pack_hand h) \<and> count_cards (pack_hand h) = count_cards x + 1"
    using a h by (intro canonical_push [OF _ _ _ _ v]) simp_all
  from a have "\<forall>u\<in>set (pslots x). 0 \<le> u \<and> u < 14"
    using pslots_range [of _ x] by (fastforce simp: canonical_def)
  then obtain n1 where n1: "count_pocket_ranks (pslots x) (replicate 14 0) = Some n1"
    using count_pocket_ranks_defined by blast
  from a have "\<forall>u\<in>set (bslots x). (0 \<le> u \<and> u < 14) \<or> u = SKIP_BOARD"
    using bslots_range [of _ x] by (fastforce simp: canonical_def SKIP_BOARD_def)
  then obtain n2 where n2: "count_board_ranks (bslots x) n1 = Some n2"
    using count_board_ranks_defined by blast
  obtain n3 where n3: "(if ?v \<noteq> SKIP_BOARD then bump_rank n2 ?v else Some n2) = Some n3"
    using v by (auto simp: bump_rank_def SKIP_BOARD_def)
  from push show "\<exists>r. add_card_to_id_no_flush x c = Some r \<and>
          (r \<noteq> 0 \<longrightarrow> canonical 13 r \<and> count_cards r = count_cards x + 1)"
    unfolding add_card_to_id_no_flush_def Let_def take_pocket_unpack64 take_board_unpack64
    by (simp only: n1 n2 h n3 option.case) simp
qed

section \<open>The list of identifiers\<close>

lemma preserves_flush_ranks_4: "preserves add_card_to_id_flush_ranks_4 (canonical 14)"
proof -
  have eq: "add_card_to_id_flush_ranks_4 = (\<lambda>x c. add_card_to_id_flush_ranks x c 4)"
    by (intro ext) (simp add: add_card_to_id_flush_ranks_4_def)
  show ?thesis
    unfolding eq by (rule preserves_flush_ranks)
qed

lemma set_generate_ids:
  assumes "preserves f I" and "generate_ids f = Some id_list"
  shows "set id_list = (\<Union>n<9. set (generation f n))"
proof -
  from assms have "id_list = sort (concat (map (generation f) [0..<9]))"
    by (simp add: generate_ids_generation)
  then show ?thesis
    by (auto simp del: upt_Suc)
qed

lemma generate_ids_enumeration:
  assumes "preserves f I"
  shows "\<exists>id_list. generate_ids f = Some id_list \<and> sorted id_list \<and> distinct id_list \<and>
           (\<forall>n\<in>{1..8}. \<exists>l q. generate_loop f [1..<Suc n] ([0], [0]) = Some (l, q) \<and>
               set q \<subseteq> set id_list \<and> (\<forall>x\<in>set q. count_cards x = n))"
proof -
  let ?ids = "sort (concat (map (generation f) [0..<9]))"
  have ids: "generate_ids f = Some ?ids"
    by (rule generate_ids_generation [OF assms])
  have "distinct (concat (map (generation f) [0..<9]))"
    by (rule distinct_concat_generations [OF assms]) simp
  then have d: "distinct ?ids"
    by (simp only: distinct_sort)
  have g: "\<exists>l q. generate_loop f [1..<Suc n] ([0], [0]) = Some (l, q) \<and>
               set q \<subseteq> set ?ids \<and> (\<forall>x\<in>set q. count_cards x = n)" if "n \<in> {1..8}" for n
  proof -
    from that have n: "n \<le> 9" "n < 9" by simp_all
    have "generate_loop f [1..<Suc n] ([0], [0]) =
            Some (concat (map (generation f) [0..<Suc n]), generation f n)"
      by (rule generate_loop_prefix [OF assms n(1)])
    moreover have "set (generation f n) \<subseteq> set ?ids"
      using n(2) by (auto simp del: upt_Suc)
    moreover have "\<forall>x\<in>set (generation f n). count_cards x = n"
      using generation_invariant [OF assms n(1)] by blast
    ultimately show ?thesis
      by blast
  qed
  have s: "sorted ?ids"
    by simp
  from ids s d g show ?thesis
    by blast
qed

section \<open>The flush suit of an identifier\<close>

text \<open>
  The identifiers of the flush-suit automaton: a pocket slot holds 0 or a suit 1..4, a
  board slot 0, a suit or the skip sentinel. \<open>suit_total\<close> is the clamped count that
  \<open>eval_flush_suits\<close> compares with 5.
\<close>

definition fs_valid :: "int \<Rightarrow> bool" where
  "fs_valid ident \<longleftrightarrow>
     (\<forall>v\<in>set (pslots ident). 1 \<le> v \<and> v \<le> 4) \<and>
     (\<forall>v\<in>set (bslots ident). (1 \<le> v \<and> v \<le> 4) \<or> v = 53)"

definition suit_total :: "int \<Rightarrow> int \<Rightarrow> int" where
  "suit_total ident s =
     min (int (count_list (pslots ident) s)) 2 + min (int (count_list (bslots ident) s)) 3"

lemma count_pocket_suits_hist:
  assumes "\<forall>c\<in>set cs. 0 \<le> c \<and> c < 5" and "length h = 5" and "\<forall>s<5. h ! s \<le> 2"
  shows "\<exists>h'. count_pocket_suits cs h = Some h' \<and> length h' = 5 \<and>
           (\<forall>s<5. h' ! s = min (h ! s + int (count_list cs (int s))) 2)"
  using assms
proof (induction cs arbitrary: h)
  case Nil
  then show ?case by simp
next
  case (Cons c cs)
  let ?h = "h[nat c := min (h ! nat c + 1) 2]"
  from Cons.prems have c: "0 \<le> c" "c < 5"
    by simp_all
  have "\<forall>s<5. ?h ! s \<le> 2"
    using Cons.prems(2,3) c by (auto simp: nth_list_update)
  with Cons.prems have "\<exists>h'. count_pocket_suits cs ?h = Some h' \<and> length h' = 5 \<and>
           (\<forall>s<5. h' ! s = min (?h ! s + int (count_list cs (int s))) 2)"
    by (intro Cons.IH) simp_all
  then obtain h' where h': "count_pocket_suits cs ?h = Some h'" "length h' = 5"
    "\<forall>s<5. h' ! s = min (?h ! s + int (count_list cs (int s))) 2"
    by blast
  have "h' ! s = min (h ! s + int (count_list (c # cs) (int s))) 2" if "s < 5" for s
  proof -
    have e1: "h' ! s = min (?h ! s + int (count_list cs (int s))) 2"
      using h'(3) that by blast
    show ?thesis
    proof (cases "s = nat c")
      case True
      have e2: "?h ! s = min (h ! s + 1) 2"
        using c Cons.prems(2) True by simp
      have e3: "int (count_list (c # cs) (int s)) = int (count_list cs (int s)) + 1"
        using True c by simp
      show ?thesis
        unfolding e1 e2 e3 by (simp add: min_def)
    next
      case False
      then have e2: "?h ! s = h ! s"
        by simp
      from False c have e3: "count_list (c # cs) (int s) = count_list cs (int s)"
        by auto
      show ?thesis
        unfolding e1 e2 e3 by (rule refl)
    qed
  qed
  with h'(1,2) c show ?case
    by simp
qed


lemma count_board_suits_hist:
  assumes "\<forall>c\<in>set cs. (0 \<le> c \<and> c < 5) \<or> c = SKIP_BOARD" and "length h = 5"
    and "\<forall>s<5. h ! s \<le> 3"
  shows "\<exists>h'. count_board_suits cs h = Some h' \<and> length h' = 5 \<and>
           (\<forall>s<5. h' ! s = min (h ! s + int (count_list cs (int s))) 3)"
  using assms
proof (induction cs arbitrary: h)
  case Nil
  then show ?case by simp
next
  case (Cons c cs)
  show ?case
  proof (cases "c = SKIP_BOARD")
    case True
    from Cons.prems have "\<exists>h'. count_board_suits cs h = Some h' \<and> length h' = 5 \<and>
           (\<forall>s<5. h' ! s = min (h ! s + int (count_list cs (int s))) 3)"
      by (intro Cons.IH) simp_all
    with True show ?thesis
      by (auto simp: SKIP_BOARD_def)
  next
    case False
    let ?h = "h[nat c := min (h ! nat c + 1) 3]"
    from Cons.prems False have c: "0 \<le> c" "c < 5"
      by auto
    have "\<forall>s<5. ?h ! s \<le> 3"
      using Cons.prems(2,3) c by (auto simp: nth_list_update)
    with Cons.prems have "\<exists>h'. count_board_suits cs ?h = Some h' \<and> length h' = 5 \<and>
           (\<forall>s<5. h' ! s = min (?h ! s + int (count_list cs (int s))) 3)"
      by (intro Cons.IH) simp_all
    then obtain h' where h': "count_board_suits cs ?h = Some h'" "length h' = 5"
      "\<forall>s<5. h' ! s = min (?h ! s + int (count_list cs (int s))) 3"
      by blast
    have "h' ! s = min (h ! s + int (count_list (c # cs) (int s))) 3" if "s < 5" for s
    proof -
      have e1: "h' ! s = min (?h ! s + int (count_list cs (int s))) 3"
        using h'(3) that by blast
      show ?thesis
      proof (cases "s = nat c")
        case True
        have e2: "?h ! s = min (h ! s + 1) 3"
          using c Cons.prems(2) True by simp
        have e3: "int (count_list (c # cs) (int s)) = int (count_list cs (int s)) + 1"
          using True c by simp
        show ?thesis
          unfolding e1 e2 e3 by (simp add: min_def)
      next
        case False
        then have e2: "?h ! s = h ! s"
          by simp
        from False c have e3: "count_list (c # cs) (int s) = count_list cs (int s)"
          by auto
        show ?thesis
          unfolding e1 e2 e3 by (rule refl)
      qed
    qed
    with h'(1,2) c False show ?thesis
      by simp
  qed
qed

lemma count_list_two: "s \<noteq> t \<Longrightarrow> count_list xs s + count_list xs t \<le> length xs"
  by (induction xs) auto

lemma suit_total_unique:
  assumes "5 \<le> suit_total ident s" and "5 \<le> suit_total ident t"
  shows "s = t"
proof (rule ccontr)
  assume "s \<noteq> t"
  then have "count_list (bslots ident) s + count_list (bslots ident) t \<le> length (bslots ident)"
    by (rule count_list_two)
  with length_bslots [of ident]
  have "count_list (bslots ident) s + count_list (bslots ident) t \<le> 5"
    by simp
  moreover from assms have "3 \<le> count_list (bslots ident) s" "3 \<le> count_list (bslots ident) t"
    by (simp_all add: suit_total_def min_def split: if_splits)
  ultimately show False
    by simp
qed

lemma scan_suits_none:
  "\<forall>s\<in>set order. \<not> 5 \<le> nsp ! nat s + nsb ! nat s \<Longrightarrow> scan_suits nsp nsb order = - 1"
  by (induction order) simp_all

lemma scan_suits_unique:
  "s \<in> set order \<Longrightarrow> 5 \<le> nsp ! nat s + nsb ! nat s \<Longrightarrow>
   \<forall>t\<in>set order. 5 \<le> nsp ! nat t + nsb ! nat t \<longrightarrow> t = s \<Longrightarrow>
   scan_suits nsp nsb order = s"
proof (induction order)
  case Nil
  then show ?case by simp
next
  case (Cons u order)
  show ?case
  proof (cases "5 \<le> nsp ! nat u + nsb ! nat u")
    case True
    with Cons.prems(3) have "u = s"
      by simp
    with True show ?thesis
      by simp
  next
    case False
    with Cons.prems(1,2) have "s \<in> set order"
      by auto
    moreover from Cons.prems(3) have "\<forall>t\<in>set order. 5 \<le> nsp ! nat t + nsb ! nat t \<longrightarrow> t = s"
      by simp
    ultimately have "scan_suits nsp nsb order = s"
      using Cons.prems(2) by (intro Cons.IH)
    with False show ?thesis
      by simp
  qed
qed

text \<open>The histograms of \<open>eval_flush_suits\<close> on a well-formed identifier.\<close>

lemma eval_flush_suits_hist:
  assumes "fs_valid ident"
  shows "\<exists>nsp nsb.
           count_pocket_suits (take (n_pocket (unpack64 ident)) (pocket (unpack64 ident)))
             (replicate 5 0) = Some nsp \<and>
           count_board_suits (take (n_board (unpack64 ident)) (board (unpack64 ident)))
             (replicate 5 0) = Some nsb \<and>
           eval_flush_suits ident = Some (scan_suits nsp nsb [1, 2, 3, 4]) \<and>
           (\<forall>s\<in>{1..4}. nsp ! nat s + nsb ! nat s = suit_total ident s)"
proof -
  from assms have "\<forall>c\<in>set (pslots ident). 0 \<le> c \<and> c < 5"
    by (fastforce simp: fs_valid_def)
  from count_pocket_suits_hist [OF this, of "replicate 5 0"]
  obtain nsp where nsp: "count_pocket_suits (pslots ident) (replicate 5 0) = Some nsp"
    "\<forall>s<5. nsp ! s = min (replicate 5 0 ! s + int (count_list (pslots ident) (int s))) 2"
    by auto
  from assms have "\<forall>c\<in>set (bslots ident). (0 \<le> c \<and> c < 5) \<or> c = SKIP_BOARD"
    by (fastforce simp: fs_valid_def SKIP_BOARD_def)
  from count_board_suits_hist [OF this, of "replicate 5 0"]
  obtain nsb where nsb: "count_board_suits (bslots ident) (replicate 5 0) = Some nsb"
    "\<forall>s<5. nsb ! s = min (replicate 5 0 ! s + int (count_list (bslots ident) (int s))) 3"
    by auto
  have "nsp ! nat s + nsb ! nat s = suit_total ident s" if "s \<in> {1..4}" for s :: int
  proof -
    from that have "nat s < 5" "int (nat s) = s"
      by auto
    with nsp(2) nsb(2) show ?thesis
      by (simp add: suit_total_def)
  qed
  with nsp(1) nsb(1) show ?thesis
    by (simp add: eval_flush_suits_def Let_def take_pocket_unpack64 take_board_unpack64)
qed

section \<open>Pruning in the flush-rank automaton\<close>

text \<open>
  The value \<open>add_card_to_id_flush_ranks\<close> stores for a card (its first statement), and
  the stored values that stand for a card of the flush suit.
\<close>

definition flush_rank_of :: "int \<Rightarrow> int \<Rightarrow> int" where
  "flush_rank_of new_card flush_suit =
     (if new_card = 0 then SKIP_BOARD
      else if ((new_card - 1) AND 3) + 1 = flush_suit
      then (2 + drop_bit 2 (new_card - 1)) AND 0xF
      else ANY_CARD)"

definition suited :: "int \<Rightarrow> bool" where
  "suited v \<longleftrightarrow> 2 \<le> v \<and> v \<le> 14"

lemma flush_rank_of_range:
  assumes "0 \<le> new_card" and "new_card \<le> 52"
  shows "flush_rank_of new_card s = 53 \<and> new_card = 0 \<or>
         1 \<le> flush_rank_of new_card s \<and> flush_rank_of new_card s \<le> 14"
proof (cases "new_card = 0")
  case True
  then show ?thesis by (simp add: flush_rank_of_def SKIP_BOARD_def)
next
  case False
  with assms have c: "1 \<le> new_card" "new_card \<le> 52" by simp_all
  from rank_of_card [OF c, of 2] False show ?thesis
    by (simp add: flush_rank_of_def ANY_CARD_def)
qed

lemma pad_full: "n \<le> length xs \<Longrightarrow> pad n xs = xs"
  by (simp add: pad_def)

lemma filter_suited_pocket:
  "\<forall>v\<in>set xs. 1 \<le> v \<and> v \<le> 14 \<Longrightarrow>
   filter (\<lambda>c. c \<noteq> ANY_CARD \<and> c \<noteq> 0) xs = filter suited xs"
  by (intro filter_cong) (auto simp: suited_def ANY_CARD_def)

lemma filter_suited_board:
  "\<forall>v\<in>set xs. 1 \<le> v \<and> v \<le> 14 \<or> v = 53 \<Longrightarrow>
   filter (\<lambda>c. c \<noteq> ANY_CARD \<and> c \<noteq> SKIP_BOARD \<and> c \<noteq> 0) xs = filter suited xs"
  by (intro filter_cong) (auto simp: suited_def ANY_CARD_def SKIP_BOARD_def)

section \<open>Members of the list of identifiers\<close>

lemma generation_step:
  assumes "x \<in> set (generation f n)" and "f x c = Some r" and "r \<noteq> 0"
    and "min_card_generate (Suc n) \<le> c" and "c \<le> 52"
  shows "r \<in> set (generation f (Suc n))"
  unfolding set_generation_Suc using assms by force

lemma generate_ids_member:
  assumes "preserves f I" and "generate_ids f = Some id_list" and "x \<in> set id_list"
  shows "I x \<and> count_cards x \<le> 8"
proof -
  from assms obtain n where n: "n < 9" "x \<in> set (generation f n)"
    by (auto simp: set_generate_ids [OF assms(1,2)])
  with generation_invariant [OF assms(1), of n x] show ?thesis
    by simp
qed

lemma generation_in_generate_ids:
  assumes "preserves f I" and "generate_ids f = Some id_list" and "n < 9"
    and "x \<in> set (generation f n)"
  shows "x \<in> set id_list"
  using assms(3,4) by (auto simp: set_generate_ids [OF assms(1,2)])

lemma canonical_fs_valid: "canonical 4 x \<Longrightarrow> fs_valid x"
  unfolding canonical_def fs_valid_def
  using pslots_range [of _ x] bslots_range [of _ x] by fastforce

text \<open>The identifier with the suit 4 in four board slots, reached by the cards 4, 8, 12, 16.\<close>

lemma four_spades_generated: "8454660 \<in> set (generation add_card_to_id_flush_suits 4)"
proof -
  have 0: "0 \<in> set (generation add_card_to_id_flush_suits 0)"
    by simp
  have s1: "add_card_to_id_flush_suits 0 4 = Some 4"
    by code_simp
  have s2: "add_card_to_id_flush_suits 4 8 = Some 516"
    by code_simp
  have s3: "add_card_to_id_flush_suits 516 12 = Some 66052"
    by code_simp
  have s4: "add_card_to_id_flush_suits 66052 16 = Some 8454660"
    by code_simp
  have e: "Suc 0 = 1" "Suc 1 = 2" "Suc 2 = 3" "Suc 3 = 4"
    by simp_all
  have 1: "4 \<in> set (generation add_card_to_id_flush_suits 1)"
    unfolding e(1) [symmetric]
    by (rule generation_step [OF 0 s1]) (simp_all add: min_card_generate_def)
  have 2: "516 \<in> set (generation add_card_to_id_flush_suits 2)"
    unfolding e(2) [symmetric]
    by (rule generation_step [OF 1 s2]) (simp_all add: min_card_generate_def)
  have 3: "66052 \<in> set (generation add_card_to_id_flush_suits 3)"
    unfolding e(3) [symmetric]
    by (rule generation_step [OF 2 s3]) (simp_all add: min_card_generate_def)
  show ?thesis
    unfolding e(4) [symmetric]
    by (rule generation_step [OF 3 s4]) (simp_all add: min_card_generate_def)
qed

section \<open>Skipping board cards\<close>

lemma six_transitions:
  assumes "f \<in> {add_card_to_id_flush_suits, add_card_to_id_flush_ranks_1,
                 add_card_to_id_flush_ranks_2, add_card_to_id_flush_ranks_3,
                 add_card_to_id_flush_ranks_4, add_card_to_id_no_flush}"
  obtains m where "preserves f (canonical m)" and "m < 53"
proof -
  have fr: "add_card_to_id_flush_ranks_1 = (\<lambda>x c. add_card_to_id_flush_ranks x c 1)"
    "add_card_to_id_flush_ranks_2 = (\<lambda>x c. add_card_to_id_flush_ranks x c 2)"
    "add_card_to_id_flush_ranks_3 = (\<lambda>x c. add_card_to_id_flush_ranks x c 3)"
    "add_card_to_id_flush_ranks_4 = (\<lambda>x c. add_card_to_id_flush_ranks x c 4)"
    by (intro ext, simp add: add_card_to_id_flush_ranks_1_def add_card_to_id_flush_ranks_2_def
          add_card_to_id_flush_ranks_3_def add_card_to_id_flush_ranks_4_def)+
  from assms consider "f = add_card_to_id_flush_suits" | "f = add_card_to_id_no_flush"
    | s where "f = (\<lambda>x c. add_card_to_id_flush_ranks x c s)"
    by (auto simp: fr)
  then show ?thesis
  proof cases
    case 1
    with preserves_flush_suits that [of 4] show ?thesis by simp
  next
    case 2
    with preserves_no_flush that [of 13] show ?thesis by simp
  next
    case 3
    with preserves_flush_ranks [of s] that [of 14] show ?thesis by simp
  qed
qed

lemma min_card_generate_zero: "min_card_generate n = 0 \<longleftrightarrow> n \<le> 2"
  by (simp add: min_card_generate_def)

lemma min_card_process_zero: "min_card_process n = 0 \<longleftrightarrow> n \<le> 1"
  by (simp add: min_card_process_def)

lemma n_board_unpack64: "n_board (unpack64 x) = length (bslots x)"
  by (simp add: unpack64_eq)

lemma skip_slots_of_result:
  assumes "preserves f (canonical m)" and "m < 53" and "canonical m x" and "count_cards x \<le> 1"
  shows "\<exists>r. f x 0 = Some r \<and> n_board (unpack64 x) < 2 \<and>
             (\<forall>i<9. slot r i = SKIP_BOARD \<longrightarrow> i < 2)"
proof -
  from assms(4) have le: "count_cards x \<le> 8"
    by simp
  from preservesD [OF assms(1,3) le, of 0] assms(4)
  obtain r where r: "f x 0 = Some r" "r \<noteq> 0 \<longrightarrow> canonical m r \<and> count_cards r = count_cards x + 1"
    by auto
  have "i < 2" if "i < 9" and "slot r i = SKIP_BOARD" for i
  proof (cases "r = 0")
    case True
    with that(2) show ?thesis
      by (simp add: slot_zero SKIP_BOARD_def)
  next
    case False
    with r(2) have "canonical m r"
      by simp
    from canonical_skip_slots [OF this assms(2) that(1)] that(2) show ?thesis
      by (simp add: SKIP_BOARD_def)
  qed
  moreover from assms(4) have "n_board (unpack64 x) < 2"
    by (simp add: n_board_unpack64 count_cards_slots)
  ultimately show ?thesis
    using r(1) by simp
qed

section \<open>Packing and unpacking\<close>

text \<open>
  Claim C8. For a pocket array of four and a board array of five values in 0..53,
  \<open>unpack64 (pack64 pocket board)\<close> returns the same multisets of values: the board in
  descending order in the five low slots, the pocket in descending order in the four
  high slots, and \<open>n_board\<close>, \<open>n_pocket\<close> count the non-zero values only. The values
  need not be distinct for this.
\<close>

theorem pack64_unpack64_round_trip:
  assumes "length p = 4" and "length b = 5"
    and "\<forall>x\<in>set p. 0 \<le> x \<and> x \<le> 53" and "\<forall>x\<in>set b. 0 \<le> x \<and> x \<le> 53"
  shows "mset (board (unpack64 (pack64 p b))) = mset b \<and>
         mset (pocket (unpack64 (pack64 p b))) = mset p \<and>
         sorted_wrt (\<ge>) (board (unpack64 (pack64 p b))) \<and>
         sorted_wrt (\<ge>) (pocket (unpack64 (pack64 p b))) \<and>
         map (slot (pack64 p b)) [0..<5] = board (unpack64 (pack64 p b)) \<and>
         map (slot (pack64 p b)) [5..<9] = pocket (unpack64 (pack64 p b)) \<and>
         n_board (unpack64 (pack64 p b)) = length (filter (\<lambda>c. c \<noteq> 0) b) \<and>
         n_pocket (unpack64 (pack64 p b)) = length (filter (\<lambda>c. c \<noteq> 0) p)"
proof -
  have rp: "\<forall>x\<in>set p. 0 \<le> x \<and> x < 128" and rb: "\<forall>x\<in>set b. 0 \<le> x \<and> x < 128"
    using assms(3,4) by fastforce+
  have all: "map (slot (pack64 p b)) [0..<9] = rev (sort b) @ rev (sort p)"
    by (rule slots_pack64 [OF assms(1,2) rp rb])
  have "[0..<9] = [0..<5] @ [5..<9]"
    by (simp add: upt_conv_Cons)
  then have "map (slot (pack64 p b)) [0..<5] @ map (slot (pack64 p b)) [5..<9] =
             rev (sort b) @ rev (sort p)"
    using all by (simp only: map_append)
  then have lo: "map (slot (pack64 p b)) [0..<5] = rev (sort b)"
    and hi: "map (slot (pack64 p b)) [5..<9] = rev (sort p)"
    using assms(1,2) by (simp_all add: append_eq_append_conv)
  show ?thesis
    unfolding unpack64_pack64 [OF assms(1,2) rp rb] lo hi
    by (simp add: sorted_wrt_rev nonzero_def)
qed

theorem pack64_unpack64_round_trip_witness:
  "mset (board (unpack64 (pack64 [13, 0, 52, 7] [0, 53, 21, 53, 40]))) = mset [0, 53, 21, 53, 40] \<and>
   mset (pocket (unpack64 (pack64 [13, 0, 52, 7] [0, 53, 21, 53, 40]))) = mset [13, 0, 52, 7] \<and>
   sorted_wrt (\<ge>) (board (unpack64 (pack64 [13, 0, 52, 7] [0, 53, 21, 53, 40]))) \<and>
   sorted_wrt (\<ge>) (pocket (unpack64 (pack64 [13, 0, 52, 7] [0, 53, 21, 53, 40]))) \<and>
   n_board (unpack64 (pack64 [13, 0, 52, 7] [0, 53, 21, 53, 40])) = 4 \<and>
   n_pocket (unpack64 (pack64 [13, 0, 52, 7] [0, 53, 21, 53, 40])) = 3"
  using pack64_unpack64_round_trip [of "[13, 0, 52, 7]" "[0, 53, 21, 53, 40]"]
  by simp

section \<open>The enumeration\<close>

text \<open>
  Claim C7. For each of the transitions (flush suits, flush ranks for any of the four
  suits, no flush) \<open>generate_ids\<close> returns a list that is sorted and has no duplicates,
  and the identifiers appended in round \<open>n\<close> of the outer loop, which are the queue
  after the rounds \<open>1..n\<close>, have exactly \<open>n\<close> non-zero slots.
\<close>

theorem generate_ids_sorted_distinct_counted:
  assumes "f \<in> {add_card_to_id_flush_suits, add_card_to_id_flush_ranks_1,
                 add_card_to_id_flush_ranks_2, add_card_to_id_flush_ranks_3,
                 add_card_to_id_flush_ranks_4, add_card_to_id_no_flush}"
  shows "\<exists>id_list. generate_ids f = Some id_list \<and> sorted id_list \<and> distinct id_list \<and>
           (\<forall>n\<in>{1..8}. \<exists>l q. generate_loop f [1..<Suc n] ([0], [0]) = Some (l, q) \<and>
               set q \<subseteq> set id_list \<and> (\<forall>x\<in>set q. count_cards x = n))"
proof -
  have fr: "add_card_to_id_flush_ranks_1 = (\<lambda>x c. add_card_to_id_flush_ranks x c 1)"
    "add_card_to_id_flush_ranks_2 = (\<lambda>x c. add_card_to_id_flush_ranks x c 2)"
    "add_card_to_id_flush_ranks_3 = (\<lambda>x c. add_card_to_id_flush_ranks x c 3)"
    "add_card_to_id_flush_ranks_4 = (\<lambda>x c. add_card_to_id_flush_ranks x c 4)"
    by (intro ext, simp add: add_card_to_id_flush_ranks_1_def add_card_to_id_flush_ranks_2_def
          add_card_to_id_flush_ranks_3_def add_card_to_id_flush_ranks_4_def)+
  from assms have "preserves f (canonical 4) \<or> preserves f (canonical 14) \<or> preserves f (canonical 13)"
    using preserves_flush_suits preserves_no_flush preserves_flush_ranks
    by (auto simp: fr)
  then show ?thesis
    using generate_ids_enumeration by blast
qed

theorem generate_ids_sorted_distinct_counted_witness:
  "generate_loop add_card_to_id_flush_suits [1..<Suc 1] ([0], [0]) =
     Some ([0, 1, 2, 3, 4, 53], [1, 2, 3, 4, 53]) \<and>
   map count_cards [1, 2, 3, 4, 53] = [1, 1, 1, 1, 1] \<and>
   (\<exists>id_list. generate_ids add_card_to_id_flush_suits = Some id_list \<and> sorted id_list \<and>
      distinct id_list \<and> set [1, 2, 3, 4, 53] \<subseteq> set id_list)"
proof -
  have g: "generate_loop add_card_to_id_flush_suits [1..<Suc 1] ([0], [0]) =
     Some ([0, 1, 2, 3, 4, 53], [1, 2, 3, 4, 53])"
    by code_simp
  from generate_ids_sorted_distinct_counted [of add_card_to_id_flush_suits]
  obtain id_list where ids: "generate_ids add_card_to_id_flush_suits = Some id_list"
    "sorted id_list" "distinct id_list"
    and n: "\<forall>n\<in>{1..8}. \<exists>l q. generate_loop add_card_to_id_flush_suits [1..<Suc n] ([0], [0]) = Some (l, q) \<and>
               set q \<subseteq> set id_list \<and> (\<forall>x\<in>set q. count_cards x = n)"
    by auto
  from n have "\<exists>l q. generate_loop add_card_to_id_flush_suits [1..<Suc 1] ([0], [0]) = Some (l, q) \<and>
               set q \<subseteq> set id_list \<and> (\<forall>x\<in>set q. count_cards x = 1)"
    by (rule bspec) simp
  then obtain l q where "Some ([0, 1, 2, 3, 4, 53], [1, 2, 3, 4, 53]) = Some (l, q)"
    and q: "set q \<subseteq> set id_list" "\<forall>x\<in>set q. count_cards x = 1"
    unfolding g by blast
  then have "q = [1, 2, 3, 4, 53]"
    by simp
  with q have "set [1, 2, 3, 4, 53] \<subseteq> set id_list" "map count_cards [1, 2, 3, 4, 53] = [1, 1, 1, 1, 1]"
    by simp_all
  with ids show ?thesis
    by (intro conjI g) blast+
qed

section \<open>The flush-suit transition never prunes\<close>

text \<open>
  Claim C9. From an identifier with at most eight occupied slots, every card 0..52
  leads \<open>add_card_to_id_flush_suits\<close> to a non-zero identifier, so the loop of
  \<open>process_ids\<close> never takes the branch that stores the fan-in offset for a zero
  result; the identifiers of the flush-suit list all have at most eight occupied
  slots.
\<close>

theorem flush_suits_never_prunes:
  assumes "count_cards ident \<le> 8" and "0 \<le> new_card" and "new_card \<le> 52"
  shows "(\<exists>new_id. add_card_to_id_flush_suits ident new_card = Some new_id \<and> new_id \<noteq> 0 \<and>
            branch_taken new_id (count_cards ident) \<noteq> Pruned) \<and>
         (\<exists>id_fs. generate_ids add_card_to_id_flush_suits = Some id_fs \<and>
            (\<forall>x\<in>set id_fs. count_cards x \<le> 8))"
proof -
  let ?v = "if new_card = 0 then SKIP_BOARD else ((new_card - 1) AND 3) + 1"
  have v: "0 < ?v" "?v < 128"
    using suit_of_card [of new_card] by (auto simp: SKIP_BOARD_def)
  from push_card_defined [OF assms(1), of ?v]
  obtain r where r: "map_option pack_hand (add_card ?v (unpack64 ident)) = Some r"
    by blast
  from push_card(2) [OF assms(1) v r] have "count_cards r \<noteq> 0"
    by simp
  then have "r \<noteq> 0"
    using count_cards_0 by auto
  moreover have "add_card_to_id_flush_suits ident new_card = Some r"
    unfolding add_card_to_id_flush_suits_def Let_def by (rule r)
  ultimately have 1: "\<exists>new_id. add_card_to_id_flush_suits ident new_card = Some new_id \<and>
      new_id \<noteq> 0 \<and> branch_taken new_id (count_cards ident) \<noteq> Pruned"
    by (simp add: branch_taken_def)
  let ?ids = "sort (concat (map (generation add_card_to_id_flush_suits) [0..<9]))"
  have ids: "generate_ids add_card_to_id_flush_suits = Some ?ids"
    by (rule generate_ids_generation [OF preserves_flush_suits])
  have "count_cards x \<le> 8" if "x \<in> set ?ids" for x
  proof -
    from that obtain n where n: "n < 9" "x \<in> set (generation add_card_to_id_flush_suits n)"
      by (auto simp del: upt_Suc)
    with generation_invariant [OF preserves_flush_suits, of n x] show ?thesis
      by simp
  qed
  with ids have 2: "\<exists>id_fs. generate_ids add_card_to_id_flush_suits = Some id_fs \<and>
            (\<forall>x\<in>set id_fs. count_cards x \<le> 8)"
    by blast
  from 1 2 show ?thesis ..
qed

theorem flush_suits_never_prunes_witness:
  "count_cards 4 \<le> 8 \<and> add_card_to_id_flush_suits 4 48 = Some 516 \<and>
   branch_taken 516 (count_cards 4) \<noteq> Pruned"
proof -
  have c: "count_cards 4 \<le> 8"
    by code_simp
  have e: "add_card_to_id_flush_suits 4 48 = Some 516"
    by code_simp
  from flush_suits_never_prunes [OF c, of 48] e have "branch_taken 516 (count_cards 4) \<noteq> Pruned"
    by simp
  with c e show ?thesis
    by simp
qed

text \<open>
  Claim C10. On an identifier of the flush-suit automaton at most one suit reaches
  \<open>min (pocket count) 2 + min (board count) 3 \<ge> 5\<close>; \<open>eval_flush_suits\<close> returns that
  suit, or \<open>-1\<close> when there is none, and scanning the four suits in any other order
  gives the same result.
\<close>

theorem eval_flush_suits_unique_suit:
  assumes "fs_valid ident"
  shows "(\<forall>s\<in>{1..4}. \<forall>t\<in>{1..4}. 5 \<le> suit_total ident s \<and> 5 \<le> suit_total ident t \<longrightarrow> s = t) \<and>
         (\<exists>r. eval_flush_suits ident = Some r \<and>
            (if \<exists>s\<in>{1..4}. 5 \<le> suit_total ident s
             then r \<in> {1..4} \<and> 5 \<le> suit_total ident r
             else r = - 1)) \<and>
         (\<exists>nsp nsb.
            count_pocket_suits (take (n_pocket (unpack64 ident)) (pocket (unpack64 ident)))
              (replicate 5 0) = Some nsp \<and>
            count_board_suits (take (n_board (unpack64 ident)) (board (unpack64 ident)))
              (replicate 5 0) = Some nsb \<and>
            (\<forall>order. set order = {1, 2, 3, 4} \<longrightarrow>
               eval_flush_suits ident = Some (scan_suits nsp nsb order)))"
proof -
  from eval_flush_suits_hist [OF assms]
  obtain nsp nsb where
    p: "count_pocket_suits (take (n_pocket (unpack64 ident)) (pocket (unpack64 ident)))
          (replicate 5 0) = Some nsp"
    and b: "count_board_suits (take (n_board (unpack64 ident)) (board (unpack64 ident)))
          (replicate 5 0) = Some nsb"
    and e: "eval_flush_suits ident = Some (scan_suits nsp nsb [1, 2, 3, 4])"
    and t: "\<forall>s\<in>{1..4}. nsp ! nat s + nsb ! nat s = suit_total ident s"
    by blast
  have four: "{1, 2, 3, 4} = {1..4::int}"
    by auto
  have found: "scan_suits nsp nsb order = s"
    if "set order = {1, 2, 3, 4}" and "s \<in> {1..4}" and "5 \<le> suit_total ident s" for order s
  proof (rule scan_suits_unique)
    show "s \<in> set order"
      using that(1,2) four by simp
    show "5 \<le> nsp ! nat s + nsb ! nat s"
      using that(2,3) t by simp
    show "\<forall>u\<in>set order. 5 \<le> nsp ! nat u + nsb ! nat u \<longrightarrow> u = s"
    proof (intro ballI impI)
      fix u
      assume "u \<in> set order" and u5: "5 \<le> nsp ! nat u + nsb ! nat u"
      then have "u \<in> {1..4}"
        using that(1) four by simp
      with t u5 have "5 \<le> suit_total ident u"
        by simp
      from suit_total_unique [OF this that(3)] show "u = s" .
    qed
  qed
  have none: "scan_suits nsp nsb order = - 1"
    if "set order = {1, 2, 3, 4}" and "\<not> (\<exists>s\<in>{1..4}. 5 \<le> suit_total ident s)" for order
  proof (rule scan_suits_none, intro ballI)
    fix u
    assume "u \<in> set order"
    then have u: "u \<in> {1..4}"
      using that(1) four by simp
    with t have "nsp ! nat u + nsb ! nat u = suit_total ident u"
      by blast
    with that(2) u show "\<not> 5 \<le> nsp ! nat u + nsb ! nat u"
      by auto
  qed
  have 1: "\<forall>s\<in>{1..4}. \<forall>t\<in>{1..4}. 5 \<le> suit_total ident s \<and> 5 \<le> suit_total ident t \<longrightarrow> s = t"
  proof (intro ballI impI)
    fix s t :: int
    assume "5 \<le> suit_total ident s \<and> 5 \<le> suit_total ident t"
    then show "s = t"
      using suit_total_unique [of ident s t] by simp
  qed
  have std: "set [1, 2, 3, 4 :: int] = {1, 2, 3, 4}"
    by simp
  have 2: "\<exists>r. eval_flush_suits ident = Some r \<and>
            (if \<exists>s\<in>{1..4}. 5 \<le> suit_total ident s
             then r \<in> {1..4} \<and> 5 \<le> suit_total ident r
             else r = - 1)"
  proof (cases "\<exists>s\<in>{1..4}. 5 \<le> suit_total ident s")
    case True
    then obtain s where s: "s \<in> {1..4}" "5 \<le> suit_total ident s"
      by blast
    from found [OF std s] e have "eval_flush_suits ident = Some s"
      by simp
    with True s show ?thesis
      by simp
  next
    case False
    from none [OF std False] e have "eval_flush_suits ident = Some (- 1)"
      by simp
    with False show ?thesis
      by simp
  qed
  have 3: "\<forall>order. set order = {1, 2, 3, 4} \<longrightarrow>
               eval_flush_suits ident = Some (scan_suits nsp nsb order)"
  proof (intro allI impI)
    fix order :: "int list"
    assume o: "set order = {1, 2, 3, 4}"
    show "eval_flush_suits ident = Some (scan_suits nsp nsb order)"
    proof (cases "\<exists>s\<in>{1..4}. 5 \<le> suit_total ident s")
      case True
      then obtain s where s: "s \<in> {1..4}" "5 \<le> suit_total ident s"
        by blast
      from found [OF std s] found [OF o s] e show ?thesis
        by simp
    next
      case False
      from none [OF std False] none [OF o False] e show ?thesis
        by simp
    qed
  qed
  from p b 3 have 4: "\<exists>nsp nsb.
            count_pocket_suits (take (n_pocket (unpack64 ident)) (pocket (unpack64 ident)))
              (replicate 5 0) = Some nsp \<and>
            count_board_suits (take (n_board (unpack64 ident)) (board (unpack64 ident)))
              (replicate 5 0) = Some nsb \<and>
            (\<forall>order. set order = {1, 2, 3, 4} \<longrightarrow>
               eval_flush_suits ident = Some (scan_suits nsp nsb order))"
    by (intro exI [of _ nsp] exI [of _ nsb] conjI)
  show ?thesis
    by (rule conjI [OF 1 conjI [OF 2 4]])
qed


theorem eval_flush_suits_unique_suit_witness:
  "fs_valid (pack64 [4, 4, 1, 1] [4, 4, 4, 1, 1]) \<and>
   5 \<le> suit_total (pack64 [4, 4, 1, 1] [4, 4, 4, 1, 1]) 4 \<and>
   eval_flush_suits (pack64 [4, 4, 1, 1] [4, 4, 4, 1, 1]) = Some 4"
proof -
  let ?x = "pack64 [4, 4, 1, 1] [4, 4, 4, 1, 1]"
  have v: "fs_valid ?x"
    by code_simp
  have s: "5 \<le> suit_total ?x 4"
    by code_simp
  have four: "(4::int) \<in> {1..4}"
    by simp
  from eval_flush_suits_unique_suit [OF v]
  have u: "\<forall>s\<in>{1..4}. \<forall>t\<in>{1..4}. 5 \<le> suit_total ?x s \<and> 5 \<le> suit_total ?x t \<longrightarrow> s = t"
    and "\<exists>r. eval_flush_suits ?x = Some r \<and>
            (if \<exists>s\<in>{1..4}. 5 \<le> suit_total ?x s
             then r \<in> {1..4} \<and> 5 \<le> suit_total ?x r
             else r = - 1)"
    by blast+
  then obtain r where r: "eval_flush_suits ?x = Some r"
    "if \<exists>s\<in>{1..4}. 5 \<le> suit_total ?x s then r \<in> {1..4} \<and> 5 \<le> suit_total ?x r else r = - 1"
    by blast
  from s four have "\<exists>s\<in>{1..4}. 5 \<le> suit_total ?x s"
    by blast
  with r(2) have "r \<in> {1..4}" "5 \<le> suit_total ?x r"
    by simp_all
  with u s four have "r = 4"
    by blast
  with v s r(1) show ?thesis
    by simp
qed

text \<open>
  Claim C6. Let the identifier hold flush-rank values only (pocket slots at most 14,
  board slots at most 14 or the skip sentinel) in at most eight slots, and let the card
  be one the loops offer: 0..52, a skip only while the board has room. If the hand
  after \<open>add_card\<close> has four board slots with fewer than two suited values, or five
  with fewer than three, or five board and four pocket slots with fewer than two
  suited pocket values, then \<open>add_card_to_id_flush_ranks\<close> returns 0.
\<close>

theorem flush_ranks_prunes:
  assumes "\<forall>v\<in>set (pslots ident). v \<le> 14"
    and "\<forall>v\<in>set (bslots ident). v \<le> 14 \<or> v = 53"
    and "count_cards ident \<le> 8" and "0 \<le> new_card" and "new_card \<le> 52"
    and "new_card = 0 \<longrightarrow> n_board (unpack64 ident) < 5"
    and "add_card (flush_rank_of new_card flush_suit) (unpack64 ident) = Some h'"
    and "n_board h' = 4 \<and> length (filter suited (take (n_board h') (board h'))) < 2 \<or>
         n_board h' = 5 \<and> length (filter suited (take (n_board h') (board h'))) < 3 \<or>
         n_board h' = 5 \<and> n_pocket h' = 4 \<and>
           length (filter suited (take (n_pocket h') (pocket h'))) < 2"
  shows "add_card_to_id_flush_ranks ident new_card flush_suit = Some 0"
proof -
  let ?v = "flush_rank_of new_card flush_suit"
  have v: "?v = 53 \<and> new_card = 0 \<or> 1 \<le> ?v \<and> ?v \<le> 14"
    by (rule flush_rank_of_range [OF assms(4,5)])
  have p: "\<forall>u\<in>set (pslots ident). 1 \<le> u \<and> u \<le> 14"
    using assms(1) pslots_range [of _ ident] by fastforce
  have b: "\<forall>u\<in>set (bslots ident). 1 \<le> u \<and> u \<le> 14 \<or> u = 53"
    using assms(2) bslots_range [of _ ident] by fastforce
  have tp: "\<forall>u\<in>set (take (n_pocket h') (pocket h')). 1 \<le> u \<and> u \<le> 14"
    and tb: "\<forall>u\<in>set (take (n_board h') (board h')). 1 \<le> u \<and> u \<le> 14 \<or> u = 53"
  proof -
    show "\<forall>u\<in>set (take (n_pocket h') (pocket h')). 1 \<le> u \<and> u \<le> 14"
    proof (cases "length (bslots ident) < 5")
      case True
      with assms(7) have "take (n_pocket h') (pocket h') = pslots ident"
        using length_pslots [of ident] by (auto simp: add_card_unpack64 take_pad)
      with p show ?thesis by simp
    next
      case False
      with assms(6) have "new_card \<noteq> 0"
        by (simp add: unpack64_eq)
      with v have v': "1 \<le> ?v \<and> ?v \<le> 14" by auto
      from False assms(7) have "take (n_pocket h') (pocket h') = pslots ident @ [?v]"
        using take_pad [of "pslots ident @ [?v]" 4]
        by (auto simp: add_card_unpack64 split: if_splits)
      with p v' show ?thesis by simp
    qed
    show "\<forall>u\<in>set (take (n_board h') (board h')). 1 \<le> u \<and> u \<le> 14 \<or> u = 53"
    proof (cases "length (bslots ident) < 5")
      case True
      with assms(7) have "take (n_board h') (board h') = bslots ident @ [?v]"
        using take_pad [of "bslots ident @ [?v]" 5] by (auto simp: add_card_unpack64)
      with b v show ?thesis by auto
    next
      case False
      with assms(7) have "take (n_board h') (board h') = bslots ident"
        using length_bslots [of ident] by (auto simp: add_card_unpack64 pad_full split: if_splits)
      with b show ?thesis by simp
    qed
  qed
  note fp = filter_suited_pocket [OF tp] and fb = filter_suited_board [OF tb]
  from assms(7,8) show ?thesis
    unfolding add_card_to_id_flush_ranks_def flush_rank_of_def [symmetric] Let_def
    by (auto simp: fp fb)
qed


theorem flush_ranks_prunes_witness:
  "count_cards 16517 \<le> 8 \<and>
   add_card (flush_rank_of 1 4) (unpack64 16517) =
     Some \<lparr>pocket = [0, 0, 0, 0], board = [5, 1, 1, 1, 0], n_pocket = 0, n_board = 4\<rparr> \<and>
   length (filter suited (take 4 [5, 1, 1, 1, 0])) < 2 \<and>
   add_card_to_id_flush_ranks 16517 1 4 = Some 0"
proof -
  let ?h = "\<lparr>pocket = [0, 0, 0, 0], board = [5, 1, 1, 1, 0], n_pocket = 0, n_board = 4\<rparr>"
  have 1: "\<forall>v\<in>set (pslots 16517). v \<le> 14"
    by code_simp
  have 2: "\<forall>v\<in>set (bslots 16517). v \<le> 14 \<or> v = 53"
    by code_simp
  have 3: "count_cards 16517 \<le> 8"
    by code_simp
  have 4: "(1::int) = 0 \<longrightarrow> n_board (unpack64 16517) < 5"
    by simp
  have 5: "add_card (flush_rank_of 1 4) (unpack64 16517) = Some ?h"
    by code_simp
  have 6: "length (filter suited (take 4 [5, 1, 1, 1, 0])) < 2"
    by code_simp
  then have 7: "n_board ?h = 4 \<and> length (filter suited (take (n_board ?h) (board ?h))) < 2 \<or>
         n_board ?h = 5 \<and> length (filter suited (take (n_board ?h) (board ?h))) < 3 \<or>
         n_board ?h = 5 \<and> n_pocket ?h = 4 \<and>
           length (filter suited (take (n_pocket ?h) (pocket ?h))) < 2"
    by simp
  have "add_card_to_id_flush_ranks 16517 1 4 = Some 0"
    by (rule flush_ranks_prunes [OF 1 2 3 _ _ 4 5 7]) simp_all
  with 3 5 6 show ?thesis
    by (intro conjI)
qed

section \<open>Suit counts in the flush-suit identifiers\<close>

text \<open>
  Claim C3, as stated, fails: \<open>add_card_to_id_flush_suits\<close> stores every suit it is
  given and clamps nothing. The identifier reached by the four spades 4, 8, 12, 16 is
  in the list of \<open>generate_ids\<close> and holds the suit 4 in four board slots.
\<close>

theorem flush_suits_ids_not_clamped:
  "\<exists>id_fs. generate_ids add_card_to_id_flush_suits = Some id_fs \<and>
           8454660 \<in> set id_fs \<and>
           map (slot 8454660) [0..<5] = [4, 4, 4, 4, 0] \<and>
           count_list (bslots 8454660) 4 = 4"
proof -
  let ?ids = "sort (concat (map (generation add_card_to_id_flush_suits) [0..<9]))"
  have ids: "generate_ids add_card_to_id_flush_suits = Some ?ids"
    by (rule generate_ids_generation [OF preserves_flush_suits])
  have m: "8454660 \<in> set ?ids"
    by (rule generation_in_generate_ids [OF preserves_flush_suits ids _ four_spades_generated])
       simp
  have s: "map (slot 8454660) [0..<5] = [4, 4, 4, 4, 0]"
    by code_simp
  have c: "count_list (bslots 8454660) 4 = 4"
    by code_simp
  show ?thesis
    by (rule exI [of _ ?ids]) (intro conjI ids m s c)
qed

text \<open>
  Claim C3, amended. The bounds 2 and 3 are those of the histograms of
  \<open>eval_flush_suits\<close>: for every identifier of the flush-suit list, the counters it
  computes are, for each suit, the number of pocket slots with that suit clamped to 2
  and the number of board slots with that suit clamped to 3.
\<close>

theorem eval_flush_suits_clamps:
  assumes "generate_ids add_card_to_id_flush_suits = Some id_fs" and "ident \<in> set id_fs"
  shows "\<exists>nsp nsb.
           count_pocket_suits (take (n_pocket (unpack64 ident)) (pocket (unpack64 ident)))
             (replicate 5 0) = Some nsp \<and>
           count_board_suits (take (n_board (unpack64 ident)) (board (unpack64 ident)))
             (replicate 5 0) = Some nsb \<and>
           (\<forall>s\<in>{1..4}. nsp ! nat s = min (int (count_list (pslots ident) s)) 2 \<and>
                        nsb ! nat s = min (int (count_list (bslots ident) s)) 3 \<and>
                        nsp ! nat s \<le> 2 \<and> nsb ! nat s \<le> 3)"
proof -
  from generate_ids_member [OF preserves_flush_suits assms] have "fs_valid ident"
    by (simp add: canonical_fs_valid)
  then have p: "\<forall>c\<in>set (pslots ident). 0 \<le> c \<and> c < 5"
    and b: "\<forall>c\<in>set (bslots ident). (0 \<le> c \<and> c < 5) \<or> c = SKIP_BOARD"
    by (fastforce simp: fs_valid_def SKIP_BOARD_def)+
  from count_pocket_suits_hist [OF p, of "replicate 5 0"]
  obtain nsp where nsp: "count_pocket_suits (pslots ident) (replicate 5 0) = Some nsp"
    "\<forall>s<5. nsp ! s = min (replicate 5 0 ! s + int (count_list (pslots ident) (int s))) 2"
    by auto
  from count_board_suits_hist [OF b, of "replicate 5 0"]
  obtain nsb where nsb: "count_board_suits (bslots ident) (replicate 5 0) = Some nsb"
    "\<forall>s<5. nsb ! s = min (replicate 5 0 ! s + int (count_list (bslots ident) (int s))) 3"
    by auto
  have "nsp ! nat s = min (int (count_list (pslots ident) s)) 2 \<and>
        nsb ! nat s = min (int (count_list (bslots ident) s)) 3 \<and>
        nsp ! nat s \<le> 2 \<and> nsb ! nat s \<le> 3" if "s \<in> {1..4}" for s :: int
  proof -
    from that have "nat s < 5" "int (nat s) = s"
      by auto
    with nsp(2) nsb(2) show ?thesis
      by simp
  qed
  with nsp(1) nsb(1) show ?thesis
    by (simp add: take_pocket_unpack64 take_board_unpack64)
qed

theorem eval_flush_suits_clamps_witness:
  "\<exists>id_fs nsb. generate_ids add_card_to_id_flush_suits = Some id_fs \<and> 8454660 \<in> set id_fs \<and>
     count_board_suits (take (n_board (unpack64 8454660)) (board (unpack64 8454660)))
       (replicate 5 0) = Some nsb \<and>
     count_list (bslots 8454660) 4 = 4 \<and> nsb ! nat 4 = 3"
proof -
  from flush_suits_ids_not_clamped obtain id_fs
    where ids: "generate_ids add_card_to_id_flush_suits = Some id_fs" "8454660 \<in> set id_fs"
      and c: "count_list (bslots 8454660) 4 = 4"
    by blast
  from eval_flush_suits_clamps [OF ids] obtain nsp nsb where
    b: "count_board_suits (take (n_board (unpack64 8454660)) (board (unpack64 8454660)))
       (replicate 5 0) = Some nsb"
    and a: "\<forall>s\<in>{1..4}. nsp ! nat s = min (int (count_list (pslots 8454660) s)) 2 \<and>
           nsb ! nat s = min (int (count_list (bslots 8454660) s)) 3 \<and>
           nsp ! nat s \<le> 2 \<and> nsb ! nat s \<le> 3"
    by blast
  have "(4::int) \<in> {1..4}"
    by simp
  from bspec [OF a this] have "nsb ! nat 4 = min (int (count_list (bslots 8454660) 4)) 3"
    by (rule conjunct1 [OF conjunct2])
  then have n: "nsb ! nat 4 = 3"
    unfolding c by simp
  show ?thesis
    by (rule exI [of _ id_fs], rule exI [of _ nsb]) (intro conjI ids b c n)
qed

text \<open>
  Claim C5. \<open>generate_ids\<close> offers the card 0 in round \<open>n_cards\<close> only when
  \<open>n_cards \<le> 2\<close>, to identifiers that hold \<open>n_cards - 1\<close> cards, and \<open>process_ids\<close> only
  to identifiers with at most one card: in both, an identifier that receives a skip
  has at most 2 cards (at most 1, in fact), and an identifier with more than 2 cards
  has 1 as its smallest next card. The skip is then written to board position 0 or 1
  (\<open>n_board < 2\<close>, so no later board position is filled), and in every identifier of
  the list and every result of such a skip the sentinel 53 occupies slots 0 and 1
  only.
\<close>

theorem skip_only_first_two_board_cards:
  assumes "f \<in> {add_card_to_id_flush_suits, add_card_to_id_flush_ranks_1,
                 add_card_to_id_flush_ranks_2, add_card_to_id_flush_ranks_3,
                 add_card_to_id_flush_ranks_4, add_card_to_id_no_flush}"
  shows "(\<forall>n_cards\<in>{1..8}. \<exists>l q. generate_loop f [1..<n_cards] ([0], [0]) = Some (l, q) \<and>
            (\<forall>x\<in>set q. (min_card_generate n_cards = 0 \<longrightarrow> count_cards x \<le> 2) \<and>
                        (2 < count_cards x \<longrightarrow> min_card_generate n_cards = 1))) \<and>
         (\<forall>x. (min_card_process (count_cards x) = 0 \<longrightarrow> count_cards x \<le> 2) \<and>
              (2 < count_cards x \<longrightarrow> min_card_process (count_cards x) = 1)) \<and>
         (\<exists>id_list. generate_ids f = Some id_list \<and>
            (\<forall>x\<in>set id_list. \<forall>i<9. slot x i = SKIP_BOARD \<longrightarrow> i < 2) \<and>
            (\<forall>x\<in>set id_list. min_card_process (count_cards x) = 0 \<longrightarrow>
               (\<exists>r. f x 0 = Some r \<and> n_board (unpack64 x) < 2 \<and>
                    (\<forall>i<9. slot r i = SKIP_BOARD \<longrightarrow> i < 2))))"
proof -
  from assms obtain m where pr: "preserves f (canonical m)" and m: "m < 53"
    by (rule six_transitions)
  have 1: "\<exists>l q. generate_loop f [1..<n] ([0], [0]) = Some (l, q) \<and>
            (\<forall>x\<in>set q. (min_card_generate n = 0 \<longrightarrow> count_cards x \<le> 2) \<and>
                        (2 < count_cards x \<longrightarrow> min_card_generate n = 1))" if "n \<in> {1..8}" for n
  proof -
    from that obtain k where k: "n = Suc k" "k \<le> 9"
      by (cases n) auto
    have g: "generate_loop f [1..<n] ([0], [0]) =
            Some (concat (map (generation f) [0..<n]), generation f k)"
      unfolding k(1) by (rule generate_loop_prefix [OF pr k(2)])
    have "(min_card_generate n = 0 \<longrightarrow> count_cards x \<le> 2) \<and>
          (2 < count_cards x \<longrightarrow> min_card_generate n = 1)" if "x \<in> set (generation f k)" for x
    proof -
      from generation_invariant [OF pr k(2) that] have "count_cards x = k"
        by simp
      with k(1) show ?thesis
        by (simp add: min_card_generate_def)
    qed
    with g show ?thesis
      by (intro exI [of _ "concat (map (generation f) [0..<n])"] exI [of _ "generation f k"])
         simp
  qed
  have 2: "\<forall>x. (min_card_process (count_cards x) = 0 \<longrightarrow> count_cards x \<le> 2) \<and>
              (2 < count_cards x \<longrightarrow> min_card_process (count_cards x) = 1)"
    by (simp add: min_card_process_def)
  let ?ids = "sort (concat (map (generation f) [0..<9]))"
  have ids: "generate_ids f = Some ?ids"
    by (rule generate_ids_generation [OF pr])
  have 3: "\<forall>i<9. slot x i = SKIP_BOARD \<longrightarrow> i < 2" if "x \<in> set ?ids" for x
  proof (intro allI impI)
    fix i :: nat
    assume i: "i < 9" and s: "slot x i = SKIP_BOARD"
    from generate_ids_member [OF pr ids that] have "canonical m x"
      by simp
    from canonical_skip_slots [OF this m i] s show "i < 2"
      by (simp add: SKIP_BOARD_def)
  qed
  have 4: "min_card_process (count_cards x) = 0 \<longrightarrow>
               (\<exists>r. f x 0 = Some r \<and> n_board (unpack64 x) < 2 \<and>
                    (\<forall>i<9. slot r i = SKIP_BOARD \<longrightarrow> i < 2))" if "x \<in> set ?ids" for x
  proof
    assume "min_card_process (count_cards x) = 0"
    then have c: "count_cards x \<le> 1"
      by (simp add: min_card_process_zero)
    from generate_ids_member [OF pr ids that] have "canonical m x"
      by simp
    from skip_slots_of_result [OF pr m this c]
    show "\<exists>r. f x 0 = Some r \<and> n_board (unpack64 x) < 2 \<and>
             (\<forall>i<9. slot r i = SKIP_BOARD \<longrightarrow> i < 2)" .
  qed
  have 5: "\<exists>id_list. generate_ids f = Some id_list \<and>
            (\<forall>x\<in>set id_list. \<forall>i<9. slot x i = SKIP_BOARD \<longrightarrow> i < 2) \<and>
            (\<forall>x\<in>set id_list. min_card_process (count_cards x) = 0 \<longrightarrow>
               (\<exists>r. f x 0 = Some r \<and> n_board (unpack64 x) < 2 \<and>
                    (\<forall>i<9. slot r i = SKIP_BOARD \<longrightarrow> i < 2)))"
    using ids 3 4 by (intro exI [of _ ?ids] conjI ballI)
  from 1 have all1: "\<forall>n_cards\<in>{1..8}. \<exists>l q. generate_loop f [1..<n_cards] ([0], [0]) = Some (l, q) \<and>
            (\<forall>x\<in>set q. (min_card_generate n_cards = 0 \<longrightarrow> count_cards x \<le> 2) \<and>
                        (2 < count_cards x \<longrightarrow> min_card_generate n_cards = 1))"
    by (intro ballI)
  show ?thesis
    by (rule conjI [OF all1 conjI [OF 2 5]])
qed


theorem skip_only_first_two_board_cards_witness:
  "\<exists>id_list. generate_ids add_card_to_id_flush_suits = Some id_list \<and> 4 \<in> set id_list \<and>
     min_card_process (count_cards 4) = 0 \<and>
     add_card_to_id_flush_suits 4 0 = Some 565 \<and>
     map (slot 565) [0..<9] = [53, 4, 0, 0, 0, 0, 0, 0, 0] \<and>
     n_board (unpack64 4) < 2 \<and>
     (\<forall>i<9. slot 565 i = SKIP_BOARD \<longrightarrow> i < 2)"
proof -
  let ?f = add_card_to_id_flush_suits
  have f: "?f \<in> {add_card_to_id_flush_suits, add_card_to_id_flush_ranks_1,
                 add_card_to_id_flush_ranks_2, add_card_to_id_flush_ranks_3,
                 add_card_to_id_flush_ranks_4, add_card_to_id_no_flush}"
    by simp
  from skip_only_first_two_board_cards [OF f]
  obtain id_list where ids: "generate_ids ?f = Some id_list"
    and sk: "\<forall>x\<in>set id_list. min_card_process (count_cards x) = 0 \<longrightarrow>
               (\<exists>r. ?f x 0 = Some r \<and> n_board (unpack64 x) < 2 \<and>
                    (\<forall>i<9. slot r i = SKIP_BOARD \<longrightarrow> i < 2))"
    by (elim conjE exE)
  have 0: "0 \<in> set (generation ?f 0)"
    by simp
  have s1: "?f 0 4 = Some 4"
    by code_simp
  have e: "Suc 0 = 1"
    by simp
  have g1: "4 \<in> set (generation ?f 1)"
    unfolding e [symmetric]
    by (rule generation_step [OF 0 s1]) (simp_all add: min_card_generate_def)
  have "(1::nat) < 9"
    by simp
  from generation_in_generate_ids [OF preserves_flush_suits ids this g1]
  have m: "4 \<in> set id_list" .
  have c: "min_card_process (count_cards 4) = 0"
    by code_simp
  have r: "?f 4 0 = Some 565"
    by code_simp
  have s: "map (slot 565) [0..<9] = [53, 4, 0, 0, 0, 0, 0, 0, 0]"
    by code_simp
  from bspec [OF sk m] c
  have "\<exists>r. ?f 4 0 = Some r \<and> n_board (unpack64 4) < 2 \<and>
            (\<forall>i<9. slot r i = SKIP_BOARD \<longrightarrow> i < 2)"
    by (rule mp)
  then have "n_board (unpack64 4) < 2 \<and> (\<forall>i<9. slot 565 i = SKIP_BOARD \<longrightarrow> i < 2)"
    unfolding r by (elim exE conjE) simp
  then have n: "n_board (unpack64 4) < 2" and p: "\<forall>i<9. slot 565 i = SKIP_BOARD \<longrightarrow> i < 2"
    by (rule conjunct1, rule conjunct2)
  show ?thesis
    by (rule exI [of _ id_list]) (intro conjI ids m c r s n p)
qed


end
